theory Spec2Isabelle
  imports Complex_Main "HOL-Library.Multiset"
begin

section \<open>Data model\<close>

text \<open>
  The Python exceptions that the modelled code paths can raise. \<open>ValidationError\<close> is the
  rejection of a malformed matrix by the clustering engine; \<open>ValueError\<close> is the rejection
  of an empty array by a numeric library call; \<open>IndexError\<close> is an out-of-range row access
  (\<open>embeddings[indices]\<close>, \<open>indices[i]\<close>, \<open>df.iloc[...]\<close>); \<open>ZeroDivisionError\<close> is
  Python's integer division by zero.
\<close>

datatype error = ValidationError | ValueError | IndexError | ZeroDivisionError

text \<open>
  \<open>clusters: Dict[int, List[int]]\<close>. A Python dict iterates in insertion order, and both the
  sampler and the validation harness iterate over \<open>clusters.items()\<close>, so the dict is an
  association list in insertion order whose keys are kept distinct by \<open>dict_append\<close>.
\<close>

type_synonym clusters = "(int \<times> nat list) list"

section \<open>clustering.py: perform_clustering\<close>

text \<open>
  Lines 24--26 of clustering.py, one iteration of the grouping loop:
  \<^verbatim>\<open>
  if int(label) not in clusters:
      clusters[int(label)] = []
  clusters[int(label)].append(idx)
  \<close>
  A new key goes to the end of the dict; an existing key keeps its place and its list grows
  at the end.
\<close>

fun dict_append :: "int \<Rightarrow> nat \<Rightarrow> clusters \<Rightarrow> clusters" where
  "dict_append label idx [] = [(label, [idx])]"
| "dict_append label idx ((k, v) # rest) =
     (if k = label then (k, v @ [idx]) # rest else (k, v) # dict_append label idx rest)"

text \<open>Lines 22--26: \<open>for idx, label in enumerate(cluster_labels)\<close>, threading the dict.\<close>

fun group_loop :: "(nat \<times> int) list \<Rightarrow> clusters \<Rightarrow> clusters" where
  "group_loop [] clusters = clusters"
| "group_loop ((idx, label) # rest) clusters = group_loop rest (dict_append label idx clusters)"

definition group_labels :: "int list \<Rightarrow> clusters" where
  "group_labels cluster_labels = group_loop (enumerate 0 cluster_labels) []"

text \<open>
  \<open>perform_clustering(embeddings, distance_threshold)\<close>. The estimator
  \<open>AgglomerativeClustering(...).fit_predict\<close> belongs to scikit-learn, not to the repository;
  it is the parameter \<open>fit_predict\<close>, which either raises or returns one integer label per
  row. The function itself makes no check of its own: an exception of \<open>fit_predict\<close>
  propagates, and otherwise the labels are grouped. The rows of \<open>embeddings\<close> are not
  inspected here, so their type is left open.
\<close>

definition perform_clustering ::
  "(real \<Rightarrow> 'v list \<Rightarrow> error + int list) \<Rightarrow> 'v list \<Rightarrow> real \<Rightarrow> error + clusters" where
  "perform_clustering fit_predict embeddings distance_threshold =
     (case fit_predict distance_threshold embeddings of
        Inl e \<Rightarrow> Inl e
      | Inr cluster_labels \<Rightarrow> Inr (group_labels cluster_labels))"

section \<open>clustering.py: get_representative_samples\<close>

text \<open>
  The embedding matrix is a list of rows. Entries are double-precision numbers in the
  source; they are idealised as reals, so rounding is not modelled.
\<close>

type_synonym vector = "real list"
type_synonym matrix = "vector list"

text \<open>
  \<open>np.mean(cluster_vectors, axis=0)\<close>: the column-wise arithmetic mean of the rows. The
  width is that of the first row (a numpy array is rectangular).
\<close>

definition np_mean :: "matrix \<Rightarrow> vector" where
  "np_mean rows =
     map (\<lambda>j. sum_list (map (\<lambda>r. r ! j) rows) / real (length rows)) [0..<length (hd rows)]"

text \<open>
  \<open>cosine_distances(cluster_vectors, centroid)\<close> of scikit-learn: both arguments are scaled
  to unit length (a zero vector is left as it is), the distance is one minus the inner
  product, clipped to \<open>[0, 2]\<close>. An array without rows is rejected with \<open>ValueError\<close>.
\<close>

definition dot :: "vector \<Rightarrow> vector \<Rightarrow> real" where
  "dot x y = sum_list (map (\<lambda>(a, b). a * b) (zip x y))"

definition l2_norm :: "vector \<Rightarrow> real" where
  "l2_norm x = sqrt (dot x x)"

definition normalize :: "vector \<Rightarrow> vector" where
  "normalize x = (if l2_norm x = 0 then x else map (\<lambda>a. a / l2_norm x) x)"

definition cosine_distance :: "vector \<Rightarrow> vector \<Rightarrow> real" where
  "cosine_distance x y = max 0 (min 2 (1 - dot (normalize x) (normalize y)))"

definition cosine_distances :: "matrix \<Rightarrow> vector \<Rightarrow> error + real list" where
  "cosine_distances X centroid =
     (if X = [] then Inl ValueError else Inr (map (\<lambda>x. cosine_distance x centroid) X))"

text \<open>
  \<open>xs[:n]\<close> for a Python integer \<open>n\<close>: the first \<open>n\<close> elements when \<open>n\<close> is not negative,
  all but the last \<open>-n\<close> when it is.
\<close>

definition py_slice_to :: "'a list \<Rightarrow> int \<Rightarrow> 'a list" where
  "py_slice_to xs n = (if 0 \<le> n then take (nat n) xs else take (length xs - nat (- n)) xs)"

text \<open>
  \<open>round(x, 2)\<close>: to two decimals, a tie going to the even neighbour. The source rounds the
  double-precision value of \<open>(len(indices) / len(df)) * 100\<close>, the model the exact quotient;
  where the exact value is a tie the two can differ in the last digit (23 of 160 rows: 14.38
  here, 14.37 in the source). No statement below depends on the value of \<open>percentage\<close>.
\<close>

definition py_round2 :: "real \<Rightarrow> real" where
  "py_round2 x =
     (let y = x * 100; f = \<lfloor>y\<rfloor>; r = y - of_int f
      in of_int (if r < 1 / 2 then f else if 1 / 2 < r then f + 1
                 else if even f then f else f + 1) / 100)"

text \<open>The summary dict appended at lines 57--62 (\<open>size\<close> is the field \<open>cluster_size\<close>).\<close>

record cluster_summary =
  cluster_id :: int
  cluster_size :: nat
  percentage :: real
  representative_samples :: "string list"

text \<open>
  The distances of the members of one cluster to the cluster's centroid (lines 42--48), in
  the order of the member list; the caller has checked the indices.
\<close>

definition member_distances :: "matrix \<Rightarrow> nat list \<Rightarrow> error + real list" where
  "member_distances embeddings indices =
     (let cluster_vectors = map (\<lambda>i. embeddings ! i) indices;
          centroid = np_mean cluster_vectors
      in cosine_distances cluster_vectors centroid)"

text \<open>
  Lines 40--62, the body of the loop for one item of \<open>clusters.items()\<close>. \<open>argsort\<close> is
  numpy's \<open>ndarray.argsort\<close>, a parameter: its default sort is not stable, so only its
  contract (the positions of the array, in ascending order of the values) is known.
  \<open>df\<close> is the \<open>full_text\<close> column of the frame, so \<open>len(df)\<close> is its length.
  \<open>embeddings[indices]\<close>, \<open>indices[i]\<close> and \<open>df.iloc[...]\<close> raise \<open>IndexError\<close> out of range;
  \<open>len(indices) / len(df)\<close> raises \<open>ZeroDivisionError\<close> for an empty frame.
\<close>

definition summarize_cluster ::
  "(real list \<Rightarrow> nat list) \<Rightarrow> matrix \<Rightarrow> string list \<Rightarrow> int \<Rightarrow> int \<times> nat list
     \<Rightarrow> error + cluster_summary" where
  "summarize_cluster argsort embeddings df samples_per_cluster c =
     (case c of (label, indices) \<Rightarrow>
        if \<exists>i\<in>set indices. length embeddings \<le> i then Inl IndexError
        else (case member_distances embeddings indices of
          Inl e \<Rightarrow> Inl e
        | Inr distances \<Rightarrow>
            (let closest_indices_local = py_slice_to (argsort distances) samples_per_cluster
             in if \<exists>i\<in>set closest_indices_local. length indices \<le> i then Inl IndexError
                else (let closest_indices_global = map (\<lambda>i. indices ! i) closest_indices_local
                  in if \<exists>g\<in>set closest_indices_global. length df \<le> g then Inl IndexError
                     else if length df = 0 then Inl ZeroDivisionError
                     else Inr \<lparr>cluster_id = label,
                               cluster_size = length indices,
                               percentage =
                                 py_round2 (real (length indices) / real (length df) * 100),
                               representative_samples =
                                 map (\<lambda>g. df ! g) closest_indices_global\<rparr>))))"

text \<open>Lines 38--62: the loop, appending one summary per cluster; the first exception ends it.\<close>

fun summarize_loop ::
  "(real list \<Rightarrow> nat list) \<Rightarrow> matrix \<Rightarrow> string list \<Rightarrow> int \<Rightarrow> clusters
     \<Rightarrow> cluster_summary list \<Rightarrow> error + cluster_summary list" where
  "summarize_loop argsort embeddings df samples_per_cluster [] cluster_summaries =
     Inr cluster_summaries"
| "summarize_loop argsort embeddings df samples_per_cluster (c # rest) cluster_summaries =
     (case summarize_cluster argsort embeddings df samples_per_cluster c of
        Inl e \<Rightarrow> Inl e
      | Inr summary \<Rightarrow>
          summarize_loop argsort embeddings df samples_per_cluster rest
            (cluster_summaries @ [summary]))"

text \<open>
  Line 65: \<open>cluster_summaries.sort(key=lambda x: x['size'], reverse=True)\<close>. Python's sort is
  stable, also with \<open>reverse=True\<close>: summaries come out by descending size, and those of
  equal size keep their order in the list. A stable ascending sort on the negated size does
  the same.
\<close>

definition sort_by_size_reverse :: "cluster_summary list \<Rightarrow> cluster_summary list" where
  "sort_by_size_reverse cluster_summaries =
     sort_key (\<lambda>x. - int (cluster_size x)) cluster_summaries"

definition get_representative_samples ::
  "(real list \<Rightarrow> nat list) \<Rightarrow> clusters \<Rightarrow> matrix \<Rightarrow> string list \<Rightarrow> int
     \<Rightarrow> error + cluster_summary list" where
  "get_representative_samples argsort clusters embeddings df samples_per_cluster =
     (case summarize_loop argsort embeddings df samples_per_cluster clusters [] of
        Inl e \<Rightarrow> Inl e
      | Inr cluster_summaries \<Rightarrow> Inr (sort_by_size_reverse cluster_summaries))"

text \<open>
  The contract of \<open>argsort\<close> on one array: a permutation of the positions that puts the
  values in ascending order. \<open>stable_argsort\<close> is the instance that keeps equal values in
  their original order.
\<close>

definition is_argsort :: "real list \<Rightarrow> nat list \<Rightarrow> bool" where
  "is_argsort ds order \<longleftrightarrow>
     mset order = mset [0..<length ds] \<and> sorted (map (\<lambda>p. ds ! p) order)"

definition stable_argsort :: "real list \<Rightarrow> nat list" where
  "stable_argsort ds = sort_key (\<lambda>p. ds ! p) [0..<length ds]"

section \<open>main.py: main\<close>



section \<open>evaluate.py: calculate_metrics\<close>




section \<open>validation.py: run_injection_test\<close>

text \<open>
  A row of the data frame as the validation harness sees it: the \<open>full_text\<close> column and
  the \<open>is_injected\<close> marker.
\<close>

record message =
  full_text :: string
  is_injected :: bool

text \<open>
  The module constant \<open>HIDDEN_MESSAGES\<close> (validation.py 10--31): the twenty messages of the
  hidden intent.
\<close>

definition HIDDEN_MESSAGES :: "string list" where
  "HIDDEN_MESSAGES =
    [''I want to partner with your brand for a sponsorship'',
     ''Do you offer franchise options?'',
     ''I am an influencer looking for a collaboration'',
     ''Who can I contact for business partnership?'',
     ''We are a logistics company wanting to work with you'',
     ''B2B collaboration request'',
     ''I want to sell your products in my shop'',
     ''Marketing tie-up proposal'',
     ''Corporate bulk orders for employees'',
     ''Affiliate marketing program details please'',
     ''Do you have a reseller program?'',
     ''I want to be a distributor'',
     ''Looking for vendor registration'',
     ''Partnership opportunity'',
     ''Can we collaborate on Instagram?'',
     ''Business query regarding distribution'',
     ''Sales team contact for bulk purchase'',
     ''I want to list my products on your site'',
     ''Sponsorship for college fest'',
     ''Collab request'']"

text \<open>
  Lines 42--55: the injected rows are appended to the original ones; the original rows have no
  \<open>is_injected\<close> value, which \<open>fillna(False)\<close> turns into \<open>False\<close>.
\<close>

definition injected_row :: "string \<Rightarrow> message" where
  "injected_row msg =
     \<lparr>full_text = ''Context: '' @ [CHR 0x0A] @ '' New Message: '' @ msg, is_injected = True\<rparr>"

definition original_row :: "string \<Rightarrow> message" where
  "original_row txt = \<lparr>full_text = txt, is_injected = False\<rparr>"

definition df_final :: "string list \<Rightarrow> string list \<Rightarrow> message list" where
  "df_final df_orig hidden = map original_row df_orig @ map injected_row hidden"

text \<open>The three variables \<open>best_cluster_id\<close>, \<open>best_recall\<close>, \<open>best_precision\<close> (lines 69--71).\<close>

record validation_result =
  best_cluster_id :: int
  best_recall :: real
  best_precision :: real

definition initial_result :: validation_result where
  "initial_result = \<lparr>best_cluster_id = - 1, best_recall = 0, best_precision = 0\<rparr>"

text \<open>
  Lines 75--86 for one cluster. \<open>df_final.iloc[indices]\<close> raises \<open>IndexError\<close> on a position
  outside the frame. The two metrics are quotients of counts; they are taken in the reals,
  where the comparison \<open>recall > 0.5\<close> has the same outcome as in double precision (a count
  quotient is above one half exactly when twice the count is above the divisor). A zero
  divisor is \<open>ZeroDivisionError\<close>; the divisors are \<open>len(HIDDEN_MESSAGES)\<close>, which is 20 in the
  source, and the size of a cluster, which the grouping loop never leaves empty.
\<close>

definition injected_count :: "message list \<Rightarrow> nat list \<Rightarrow> nat" where
  "injected_count df indices = length (filter is_injected (map (\<lambda>i. df ! i) indices))"

definition recall_of :: "message list \<Rightarrow> nat \<Rightarrow> nat list \<Rightarrow> real" where
  "recall_of df K indices = real (injected_count df indices) / real K"

definition precision_of :: "message list \<Rightarrow> nat list \<Rightarrow> real" where
  "precision_of df indices = real (injected_count df indices) / real (length indices)"

text \<open>Lines 73--96: the scan over \<open>clusters.items()\<close>; \<open>K\<close> is \<open>len(HIDDEN_MESSAGES)\<close>.\<close>

fun analyze_clusters ::
  "message list \<Rightarrow> nat \<Rightarrow> clusters \<Rightarrow> validation_result \<Rightarrow> error + validation_result" where
  "analyze_clusters df K [] best = Inr best"
| "analyze_clusters df K ((c_id, indices) # rest) best =
     (if \<exists>i\<in>set indices. length df \<le> i then Inl IndexError
      else if K = 0 \<or> length indices = 0 then Inl ZeroDivisionError
      else if recall_of df K indices > 0.5
        then analyze_clusters df K rest
               \<lparr>best_cluster_id = c_id, best_recall = recall_of df K indices,
                best_precision = precision_of df indices\<rparr>
        else analyze_clusters df K rest best)"

text \<open>Lines 103--117: the final verdict printed from the three variables.\<close>

datatype verdict = SUCCESS_PERFECT | SUCCESS_STRONG | SUCCESS_PASSABLE | FAILURE

definition final_verdict :: "validation_result \<Rightarrow> verdict" where
  "final_verdict r =
     (if best_cluster_id r \<noteq> - 1 then
        (if best_recall r = 1 \<and> best_precision r = 1 then SUCCESS_PERFECT
         else if best_recall r > 0.8 then SUCCESS_STRONG
         else SUCCESS_PASSABLE)
      else FAILURE)"

text \<open>
  \<open>run_injection_test()\<close>. The file contents (\<open>df_orig\<close>, the \<open>full_text\<close> column of the loaded
  frame), the list of hidden messages, the embedding model (\<open>generate_embeddings\<close>) and the
  estimator (\<open>fit_predict\<close>) are the function's environment and are parameters here. The
  threshold is the literal \<open>1.5\<close> of line 64.
\<close>

definition run_injection_test ::
  "(string list \<Rightarrow> 'v list) \<Rightarrow> (real \<Rightarrow> 'v list \<Rightarrow> error + int list) \<Rightarrow> string list \<Rightarrow> string list
     \<Rightarrow> error + validation_result" where
  "run_injection_test generate_embeddings fit_predict df_orig hidden =
     (let df = df_final df_orig hidden;
          vectors = generate_embeddings (map full_text df)
      in case perform_clustering fit_predict vectors 1.5 of
           Inl e \<Rightarrow> Inl e
         | Inr clusters \<Rightarrow> analyze_clusters df (length hidden) clusters initial_result)"

text \<open>
  The selection as the specification words it, for comparison with the scan: among the
  clusters whose recall exceeds one half, the one of highest recall is the candidate, reported
  with its recall and precision; with no such cluster the result is the initial one.
\<close>

definition candidate_result :: "message list \<Rightarrow> nat \<Rightarrow> int \<times> nat list \<Rightarrow> validation_result" where
  "candidate_result df K c =
     \<lparr>best_cluster_id = fst c, best_recall = recall_of df K (snd c),
      best_precision = precision_of df (snd c)\<rparr>"

definition qualifying :: "message list \<Rightarrow> nat \<Rightarrow> clusters \<Rightarrow> clusters" where
  "qualifying df K clusters = filter (\<lambda>c. recall_of df K (snd c) > 0.5) clusters"

fun highest_recall :: "message list \<Rightarrow> nat \<Rightarrow> int \<times> nat list \<Rightarrow> clusters \<Rightarrow> int \<times> nat list" where
  "highest_recall df K best [] = best"
| "highest_recall df K best (c # cs) =
     highest_recall df K (if recall_of df K (snd c) > recall_of df K (snd best) then c else best) cs"

definition select_highest_recall :: "message list \<Rightarrow> nat \<Rightarrow> clusters \<Rightarrow> validation_result" where
  "select_highest_recall df K clusters =
     (case qualifying df K clusters of
        [] \<Rightarrow> initial_result
      | c # cs \<Rightarrow> candidate_result df K (highest_recall df K c cs))"

section \<open>The clustering engine of the specification\<close>

text \<open>
  Modelled from the spec: the agglomeration behind \<open>fit_predict\<close>. The call at
  clustering.py 13--20 goes to scikit-learn's \<open>AgglomerativeClustering\<close>, whose code is not in
  the repository; what follows is section 4.1 of the specification (contract, algorithm,
  determinism, failure), with finite matrix entries idealised as reals.

  An entry of the raw matrix is a finite number or one of the three non-finite values.
\<close>

datatype float64 = Finite real | NaN | PosInf | NegInf

text \<open>Modelled from the spec: whether an entry is a finite value (neither NaN nor infinite).\<close>

fun is_finite :: "float64 \<Rightarrow> bool" where
  "is_finite (Finite x) = True"
| "is_finite NaN = False"
| "is_finite PosInf = False"
| "is_finite NegInf = False"

text \<open>
  Modelled from the spec: the real number that a finite entry stands for; it is only applied
  to the entries of a matrix that has passed validation.
\<close>

fun finite_value :: "float64 \<Rightarrow> real" where
  "finite_value (Finite x) = x"
| "finite_value NaN = 0"
| "finite_value PosInf = 0"
| "finite_value NegInf = 0"

text \<open>
  Modelled from the spec: ``rejects (fails with \<open>ValidationError\<close>) when vectors are empty,
  ragged, or contain non-finite values''; an accepted matrix is handed on as a matrix of
  reals.
\<close>

definition validate_matrix :: "float64 list list \<Rightarrow> error + matrix" where
  "validate_matrix vectors =
     (if vectors = [] then Inl ValidationError
      else if \<exists>r\<in>set vectors. length r \<noteq> length (hd vectors) then Inl ValidationError
      else if \<exists>r\<in>set vectors. \<exists>x\<in>set r. \<not> is_finite x then Inl ValidationError
      else Inr (map (map finite_value) vectors))"

text \<open>
  Modelled from the spec: the groups. Every vector carries the lowest original index of its
  group, so a group is the list of the indices that carry the same value, and ``each vector
  as its own singleton group'' is the list \<open>[0, ..., n-1]\<close>.
\<close>

definition members :: "nat list \<Rightarrow> nat \<Rightarrow> nat list" where
  "members lab a = filter (\<lambda>i. lab ! i = a) [0..<length lab]"

text \<open>
  Modelled from the spec: the groups that exist, each named by its lowest original index, in
  ascending order.
\<close>

definition group_ids :: "nat list \<Rightarrow> nat list" where
  "group_ids lab = filter (\<lambda>a. a \<in> set lab) [0..<length lab]"

text \<open>
  Modelled from the spec: the cost of merging two groups is ``the increase in total
  within-group variance (Ward criterion), computed over Euclidean distance'': the growth of
  the within-group sum of squared distances, \<open>|A||B| / (|A| + |B|)\<close> times the squared
  distance of the two centroids.
\<close>

definition sq_dist :: "vector \<Rightarrow> vector \<Rightarrow> real" where
  "sq_dist x y = sum_list (map (\<lambda>(a, b). (a - b)\<^sup>2) (zip x y))"

text \<open>Modelled from the spec: the Ward cost of merging the two groups of an index pair.\<close>

definition merge_cost :: "matrix \<Rightarrow> nat list \<Rightarrow> nat \<times> nat \<Rightarrow> real" where
  "merge_cost m lab p =
     (let A = members lab (fst p); B = members lab (snd p)
      in real (length A) * real (length B) / real (length A + length B)
           * sq_dist (np_mean (map (\<lambda>i. m ! i) A)) (np_mean (map (\<lambda>i. m ! i) B)))"

text \<open>
  Modelled from the spec: ``merge the pair of groups whose merge minimizes the increase'',
  ``ties in merge cost are broken by lowest combined original index pair''. The pairs are
  listed in ascending order of (lower group index, higher group index); \<open>cheapest\<close> keeps
  the first pair of least cost.
\<close>

definition candidate_pairs :: "nat list \<Rightarrow> (nat \<times> nat) list" where
  "candidate_pairs lab =
     filter (\<lambda>(a, b). a < b) (List.product (group_ids lab) (group_ids lab))"

text \<open>
  Modelled from the spec: the first pair of least cost in a list of pairs, \<open>best\<close> being the
  least so far; a later pair replaces it only when strictly cheaper.
\<close>

fun cheapest :: "((nat \<times> nat) \<Rightarrow> real) \<Rightarrow> nat \<times> nat \<Rightarrow> (nat \<times> nat) list \<Rightarrow> nat \<times> nat" where
  "cheapest cost best [] = best"
| "cheapest cost best (p # ps) = cheapest cost (if cost p < cost best then p else best) ps"

text \<open>Modelled from the spec: the pair to merge next, if two groups are left.\<close>

definition next_merge :: "matrix \<Rightarrow> nat list \<Rightarrow> (nat \<times> nat) option" where
  "next_merge m lab =
     (case candidate_pairs lab of
        [] \<Rightarrow> None
      | p # ps \<Rightarrow> Some (cheapest (merge_cost m lab) p ps))"

text \<open>
  Modelled from the spec: merging the two groups of a pair; the members of the higher group
  take the lower group's index.
\<close>

definition merge_groups :: "nat \<times> nat \<Rightarrow> nat list \<Rightarrow> nat list" where
  "merge_groups p lab = map (\<lambda>x. if x = snd p then fst p else x) lab"

lemma cheapest_in: "cheapest cost best ps \<in> set (best # ps)"
  by (induction ps arbitrary: best) auto

lemma candidate_pairs_in:
  "p \<in> set (candidate_pairs lab) \<Longrightarrow> fst p \<in> set lab \<and> snd p \<in> set lab \<and> fst p < snd p"
  by (auto simp: candidate_pairs_def group_ids_def)

lemma next_merge_in: "next_merge m lab = Some p \<Longrightarrow> p \<in> set (candidate_pairs lab)"
  using cheapest_in [of "merge_cost m lab"]
  by (auto simp: next_merge_def split: list.splits)

lemma merge_groups_set:
  assumes "fst p \<in> set lab" and "snd p \<in> set lab" and "fst p < snd p"
  shows "set (merge_groups p lab) = set lab - {snd p}"
  using assms by (auto simp: merge_groups_def)

lemma merge_groups_card:
  assumes "next_merge m lab = Some p"
  shows "card (set (merge_groups p lab)) < card (set lab)"
proof -
  have p: "fst p \<in> set lab" "snd p \<in> set lab" "fst p < snd p"
    using candidate_pairs_in [OF next_merge_in [OF assms]] by simp_all
  have "set (merge_groups p lab) = set lab - {snd p}" by (rule merge_groups_set [OF p])
  then show ?thesis using card_Diff1_less [of "set lab" "snd p"] p(2) by simp
qed

text \<open>
  Modelled from the spec: ``Stop merging as soon as the next cheapest merge would exceed
  \<open>threshold\<close>; the groups existing at that point are the final clusters.''
\<close>

function agglomerate :: "matrix \<Rightarrow> real \<Rightarrow> nat list \<Rightarrow> nat list" where
  "agglomerate m threshold lab =
     (case next_merge m lab of
        None \<Rightarrow> lab
      | Some p \<Rightarrow>
          if threshold < merge_cost m lab p then lab
          else agglomerate m threshold (merge_groups p lab))"
  by pat_completeness auto
termination
  by (relation "measure (\<lambda>(m, threshold, lab). card (set lab))") (simp_all add: merge_groups_card)

declare agglomerate.simps [simp del]

text \<open>
  Modelled from the spec: ``Assign each final group an integer label'' and the contract
  \<open>cluster(vectors, threshold)\<close>. Which integer a group receives is left open by the
  specification (``label values are assignment artifacts''); it is the parameter \<open>assign\<close>,
  applied to the group's lowest index.
\<close>

definition agglomerative_fit_predict ::
  "(nat \<Rightarrow> int) \<Rightarrow> real \<Rightarrow> float64 list list \<Rightarrow> error + int list" where
  "agglomerative_fit_predict assign threshold vectors =
     (case validate_matrix vectors of
        Inl e \<Rightarrow> Inl e
      | Inr m \<Rightarrow> Inr (map assign (agglomerate m threshold [0..<length m])))"

section \<open>Properties of the grouping loop\<close>

lemma dict_append_keys:
  "map fst (dict_append l i d) = (if l \<in> set (map fst d) then map fst d else map fst d @ [l])"
  by (induction d) (auto split: if_splits)

lemma dict_append_distinct:
  "distinct (map fst d) \<Longrightarrow> distinct (map fst (dict_append l i d))"
  by (simp add: dict_append_keys)

lemma dict_append_mset:
  "mset (concat (map snd (dict_append l i d))) = add_mset i (mset (concat (map snd d)))"
  by (induction d) auto

lemma dict_append_nonempty:
  "list_all (\<lambda>c. snd c \<noteq> []) d \<Longrightarrow> list_all (\<lambda>c. snd c \<noteq> []) (dict_append l i d)"
  by (induction d) auto

lemma group_loop_distinct:
  "distinct (map fst d) \<Longrightarrow> distinct (map fst (group_loop ps d))"
  by (induction ps d rule: group_loop.induct) (simp_all add: dict_append_distinct)

lemma group_loop_mset:
  "mset (concat (map snd (group_loop ps d))) = mset (concat (map snd d)) + mset (map fst ps)"
  by (induction ps d rule: group_loop.induct) (simp_all add: dict_append_mset)

lemma group_loop_nonempty:
  "list_all (\<lambda>c. snd c \<noteq> []) d \<Longrightarrow> list_all (\<lambda>c. snd c \<noteq> []) (group_loop ps d)"
  by (induction ps d rule: group_loop.induct) (simp_all add: dict_append_nonempty)

lemma group_labels_distinct: "distinct (map fst (group_labels ls))"
  by (simp add: group_labels_def group_loop_distinct)

lemma group_labels_mset: "mset (concat (map snd (group_labels ls))) = mset [0..<length ls]"
  by (simp add: group_labels_def group_loop_mset)

lemma group_labels_nonempty: "c \<in> set (group_labels ls) \<Longrightarrow> snd c \<noteq> []"
  using group_loop_nonempty [of "[]" "enumerate 0 ls"] by (simp add: group_labels_def list_all_iff)

lemma group_labels_distinct_concat: "distinct (concat (map snd (group_labels ls)))"
proof -
  have "distinct [0..<length ls]" by simp
  then have "distinct (concat (map snd (group_labels ls)))"
    using group_labels_mset [of ls] by (metis mset_eq_imp_distinct_iff)
  then show ?thesis .
qed

lemma distinct_concat_disjoint:
  "distinct (concat xss) \<Longrightarrow> i < j \<Longrightarrow> j < length xss \<Longrightarrow> set (xss ! i) \<inter> set (xss ! j) = {}"
proof (induction xss arbitrary: i j)
  case Nil
  then show ?case by simp
next
  case (Cons xs xss)
  show ?case
  proof (cases i)
    case 0
    then obtain j' where j': "j = Suc j'" "j' < length xss"
      using Cons.prems(2,3) by (cases j) auto
    then have "xss ! j' \<in> set xss" by simp
    then have "set (xss ! j') \<subseteq> set (concat xss)" by auto
    moreover have "set xs \<inter> set (concat xss) = {}" using Cons.prems(1) by simp
    ultimately show ?thesis using 0 j' by auto
  next
    case (Suc i')
    then obtain j' where j': "j = Suc j'" "i' < j'" "j' < length xss"
      using Cons.prems(2,3) by (cases j) auto
    have "distinct (concat xss)" using Cons.prems(1) by simp
    then have "set (xss ! i') \<inter> set (xss ! j') = {}" using Cons.IH j' by blast
    then show ?thesis using Suc j' by simp
  qed
qed

lemma group_labels_unique_cluster:
  assumes "c1 \<in> set (group_labels ls)" and "c2 \<in> set (group_labels ls)"
    and "i \<in> set (snd c1)" and "i \<in> set (snd c2)"
  shows "c1 = c2"
proof -
  let ?g = "group_labels ls"
  have dc: "distinct (concat (map snd ?g))" by (rule group_labels_distinct_concat)
  obtain k1 where k1: "k1 < length ?g" "?g ! k1 = c1"
    using assms(1) by (auto simp: in_set_conv_nth)
  obtain k2 where k2: "k2 < length ?g" "?g ! k2 = c2"
    using assms(2) by (auto simp: in_set_conv_nth)
  have "k1 = k2"
  proof (rule ccontr)
    assume ne: "k1 \<noteq> k2"
    have "set (map snd ?g ! k1) \<inter> set (map snd ?g ! k2) = {}"
    proof (cases "k1 < k2")
      case True
      then show ?thesis using distinct_concat_disjoint [OF dc, of k1 k2] k2(1) by simp
    next
      case False
      then have "k2 < k1" using ne by simp
      then show ?thesis using distinct_concat_disjoint [OF dc, of k2 k1] k1(1) by auto
    qed
    then show False using k1 k2 assms(3,4) by auto
  qed
  then show ?thesis using k1 k2 by simp
qed

text \<open>
  C1. Whenever \<open>perform_clustering\<close> returns a cluster mapping for a matrix of \<open>n\<close> rows
  (the estimator returning one label per row), the mapping is a partition of
  \<open>{0, ..., n-1}\<close>: its keys are distinct, the member lists taken together contain every
  index below \<open>n\<close> exactly once and nothing else, and every index lies in exactly one
  cluster.
\<close>

theorem perform_clustering_partition:
  assumes "perform_clustering fit_predict embeddings thr = Inr clusters"
    and "\<And>labels. fit_predict thr embeddings = Inr labels \<Longrightarrow> length labels = length embeddings"
  shows "distinct (map fst clusters)
       \<and> mset (concat (map snd clusters)) = mset [0..<length embeddings]
       \<and> (\<forall>i<length embeddings. \<exists>!c. c \<in> set clusters \<and> i \<in> set (snd c))
       \<and> (\<forall>c\<in>set clusters. distinct (snd c) \<and> snd c \<noteq> [] \<and> set (snd c) \<subseteq> {0..<length embeddings})"
proof -
  obtain labels where fp: "fit_predict thr embeddings = Inr labels"
    and cl: "clusters = group_labels labels"
    using assms(1) by (auto simp: perform_clustering_def split: sum.splits)
  have len: "length labels = length embeddings" using assms(2) fp by simp
  have m: "mset (concat (map snd clusters)) = mset [0..<length embeddings]"
    using group_labels_mset [of labels] cl len by simp
  have s: "set (concat (map snd clusters)) = {0..<length embeddings}"
    using m by (metis mset_eq_setD set_upt)
  have d: "distinct (concat (map snd clusters))"
    using cl group_labels_distinct_concat by simp
  have ex1: "\<forall>i<length embeddings. \<exists>!c. c \<in> set clusters \<and> i \<in> set (snd c)"
  proof (intro allI impI)
    fix i assume "i < length embeddings"
    then have "i \<in> set (concat (map snd clusters))" using s by simp
    then obtain c where c: "c \<in> set clusters" "i \<in> set (snd c)" by auto
    show "\<exists>!c. c \<in> set clusters \<and> i \<in> set (snd c)"
    proof (rule ex1I [of _ c])
      show "c \<in> set clusters \<and> i \<in> set (snd c)" using c by simp
    next
      fix c' assume "c' \<in> set clusters \<and> i \<in> set (snd c')"
      then show "c' = c" using c cl group_labels_unique_cluster by blast
    qed
  qed
  have each: "\<forall>c\<in>set clusters. distinct (snd c) \<and> snd c \<noteq> [] \<and> set (snd c) \<subseteq> {0..<length embeddings}"
  proof
    fix c assume c: "c \<in> set clusters"
    have "distinct (snd c)" using d c by (auto simp: distinct_concat_iff)
    moreover have "snd c \<noteq> []" using c cl group_labels_nonempty by simp
    moreover have "set (snd c) \<subseteq> {0..<length embeddings}" using s c by auto
    ultimately show "distinct (snd c) \<and> snd c \<noteq> [] \<and> set (snd c) \<subseteq> {0..<length embeddings}"
      by simp
  qed
  show ?thesis using cl group_labels_distinct m ex1 each by simp
qed

theorem perform_clustering_partition_witness:
  "perform_clustering (\<lambda>t m. Inr [1, 0, 1]) [[1, 0], [0, 1], [1, 0 :: real]] 1.5
     = Inr [(1, [0, 2]), (0, [1])]
   \<and> distinct (map fst [(1 :: int, [0, 2 :: nat]), (0, [1])])
   \<and> mset (concat (map snd [(1 :: int, [0, 2 :: nat]), (0, [1])])) = mset [0..<3]"
proof -
  let ?F = "\<lambda>(t :: real) (m :: real list list). (Inr [1, 0, 1] :: error + int list)"
  let ?E = "[[1, 0], [0, 1], [1, 0 :: real]]"
  have run: "perform_clustering ?F ?E 1.5 = Inr [(1, [0, 2]), (0, [1])]"
    by (simp add: perform_clustering_def group_labels_def)
  have len: "\<And>labels. ?F 1.5 ?E = Inr labels \<Longrightarrow> length labels = length ?E"
    by auto
  have l3: "length ?E = 3" by simp
  from perform_clustering_partition [OF run len]
  have a: "distinct (map fst [(1 :: int, [0, 2 :: nat]), (0, [1])])"
    and b: "mset (concat (map snd [(1 :: int, [0, 2 :: nat]), (0, [1])])) = mset [0..<length ?E]"
    by blast+
  show ?thesis using run a b [unfolded l3] by (intro conjI)
qed

section \<open>Properties of the injection scan\<close>


lemma HIDDEN_MESSAGES_length: "length HIDDEN_MESSAGES = 20"
  by (simp add: HIDDEN_MESSAGES_def)

lemma injected_count_concat:
  "sum_list (map (\<lambda>c. injected_count df (snd c)) cs) = injected_count df (concat (map snd cs))"
  by (induction cs) (simp_all add: injected_count_def)

lemma injected_count_as_mset:
  "injected_count df xs = size (filter_mset (\<lambda>i. is_injected (df ! i)) (mset xs))"
proof -
  have "injected_count df xs = length (filter (\<lambda>i. is_injected (df ! i)) xs)"
    by (simp add: injected_count_def filter_map comp_def)
  also have "\<dots> = size (mset (filter (\<lambda>i. is_injected (df ! i)) xs))"
    by (simp only: size_mset)
  also have "\<dots> = size (filter_mset (\<lambda>i. is_injected (df ! i)) (mset xs))"
    by (simp only: mset_filter)
  finally show ?thesis .
qed

lemma injected_count_all:
  "injected_count df [0..<length df] = length (filter is_injected df)"
  by (simp add: injected_count_def map_nth)

lemma injected_count_partition:
  assumes "mset (concat (map snd cs)) = mset [0..<length df]"
  shows "sum_list (map (\<lambda>c. injected_count df (snd c)) cs) = length (filter is_injected df)"
proof -
  have "injected_count df (concat (map snd cs)) = injected_count df [0..<length df]"
    using assms by (simp only: injected_count_as_mset)
  then show ?thesis by (simp add: injected_count_concat injected_count_all)
qed

lemma pair_le_sum_list:
  fixes f :: "'a \<Rightarrow> nat"
  assumes "distinct xs" "a \<in> set xs" "b \<in> set xs" "a \<noteq> b"
  shows "f a + f b \<le> sum_list (map f xs)"
proof -
  have "sum_list (map f xs) = sum f (set xs)"
    using assms(1) by (simp add: sum_list_distinct_conv_sum_set)
  moreover have "sum f {a, b} \<le> sum f (set xs)"
    by (rule sum_mono2) (use assms in auto)
  moreover have "sum f {a, b} = f a + f b" using assms(4) by simp
  ultimately show ?thesis by simp
qed

lemma recall_gt_half:
  "0 < K \<Longrightarrow> (recall_of df K xs > 0.5) = (K < 2 * injected_count df xs)"
  by (auto simp: recall_of_def field_simps)

lemma majority_unique:
  assumes dk: "distinct (map fst cs)"
    and part: "mset (concat (map snd cs)) = mset [0..<length df]"
    and K: "K = length (filter is_injected df)" "0 < K"
    and c1: "c1 \<in> set cs" "recall_of df K (snd c1) > 0.5"
    and c2: "c2 \<in> set cs" "recall_of df K (snd c2) > 0.5"
  shows "c1 = c2"
proof (rule ccontr)
  assume ne: "c1 \<noteq> c2"
  have d: "distinct cs" using dk by (simp add: distinct_map)
  have "injected_count df (snd c1) + injected_count df (snd c2)
          \<le> sum_list (map (\<lambda>c. injected_count df (snd c)) cs)"
    by (rule pair_le_sum_list [OF d c1(1) c2(1) ne])
  also have "\<dots> = K" using injected_count_partition [OF part] K(1) by simp
  finally have "injected_count df (snd c1) + injected_count df (snd c2) \<le> K" .
  moreover have "K < 2 * injected_count df (snd c1)" using c1(2) recall_gt_half [OF K(2), of df "snd c1"] by blast
  moreover have "K < 2 * injected_count df (snd c2)" using c2(2) recall_gt_half [OF K(2), of df "snd c2"] by blast
  ultimately show False by linarith
qed

lemma analyze_clusters_foldl:
  assumes "\<forall>c\<in>set cs. (\<forall>i\<in>set (snd c). i < length df) \<and> snd c \<noteq> []" and "0 < K"
  shows "analyze_clusters df K cs best =
     Inr (foldl (\<lambda>b c. if recall_of df K (snd c) > 0.5 then candidate_result df K c else b) best cs)"
  using assms
proof (induction df K cs best rule: analyze_clusters.induct)
  case (1 df K best)
  then show ?case by simp
next
  case (2 df K c_id indices rest best)
  have ok: "\<not> (\<exists>i\<in>set indices. length df \<le> i)" "\<not> (K = 0 \<or> length indices = 0)"
    using "2.prems" by (auto simp: not_le)
  have rest: "\<forall>c\<in>set rest. (\<forall>i\<in>set (snd c). i < length df) \<and> snd c \<noteq> []"
    using "2.prems" by simp
  show ?case
  proof (cases "recall_of df K indices > 0.5")
    case True
    then show ?thesis using ok "2.IH"(1) [OF ok True rest "2.prems"(2)]
      by (simp add: candidate_result_def)
  next
    case False
    then show ?thesis using ok "2.IH"(2) [OF ok False rest "2.prems"(2)]
      by simp
  qed
qed

lemma foldl_unique:
  assumes "\<forall>c1\<in>set cs. \<forall>c2\<in>set cs. Q c1 \<and> Q c2 \<longrightarrow> c1 = c2"
  shows "foldl (\<lambda>b c. if Q c then f c else b) best cs =
           (case filter Q cs of [] \<Rightarrow> best | c # _ \<Rightarrow> f c)"
  using assms
proof (induction cs arbitrary: best)
  case Nil
  then show ?case by simp
next
  case (Cons c cs)
  have u: "\<forall>c1\<in>set cs. \<forall>c2\<in>set cs. Q c1 \<and> Q c2 \<longrightarrow> c1 = c2" using Cons.prems by simp
  show ?case
  proof (cases "Q c")
    case True
    have "\<forall>x\<in>set (filter Q cs). x = c" using Cons.prems True by auto
    then have "(case filter Q cs of [] \<Rightarrow> f c | c' # _ \<Rightarrow> f c') = f c"
      by (cases "filter Q cs") auto
    then show ?thesis using True Cons.IH [OF u, of "f c"] by simp
  next
    case False
    then show ?thesis using Cons.IH [OF u, of best] by simp
  qed
qed

lemma unique_filter_short:
  assumes "distinct cs" and "\<forall>c1\<in>set cs. \<forall>c2\<in>set cs. Q c1 \<and> Q c2 \<longrightarrow> c1 = c2"
  shows "length (filter Q cs) \<le> 1"
proof (rule ccontr)
  assume "\<not> length (filter Q cs) \<le> 1"
  then obtain a b rest where f: "filter Q cs = a # b # rest"
    by (cases "filter Q cs"; cases "tl (filter Q cs)") auto
  have "distinct (filter Q cs)" using assms(1) by simp
  then have "a \<noteq> b" using f by simp
  moreover have "a \<in> set (filter Q cs)" "b \<in> set (filter Q cs)" using f by simp_all
  then have "a \<in> set cs \<and> Q a" "b \<in> set cs \<and> Q b" by simp_all
  ultimately show False using assms(2) by blast
qed


lemma group_loop_keys:
  "set (map fst (group_loop ps d)) = set (map fst d) \<union> set (map snd ps)"
  by (induction ps d rule: group_loop.induct) (auto simp: dict_append_keys)

lemma group_labels_keys: "set (map fst (group_labels ls)) = set ls"
  using group_loop_keys [of "enumerate 0 ls" "[]"] by (simp add: group_labels_def)

lemma group_labels_members_bound:
  assumes "c \<in> set (group_labels ls)" and "i \<in> set (snd c)"
  shows "i < length ls"
proof -
  have "i \<in> set (concat (map snd (group_labels ls)))" using assms by auto
  also have "set (concat (map snd (group_labels ls))) = set [0..<length ls]"
    using group_labels_mset [of ls] by (rule mset_eq_setD)
  finally show ?thesis by simp
qed

lemma group_labels_valid:
  assumes "length df = length ls"
  shows "\<forall>c\<in>set (group_labels ls). (\<forall>i\<in>set (snd c). i < length df) \<and> snd c \<noteq> []"
  using assms group_labels_members_bound group_labels_nonempty by auto

lemma scan_group_labels:
  assumes len: "length df = length labels"
    and K: "K = length (filter is_injected df)" "0 < K"
  shows "analyze_clusters df K (group_labels labels) best =
           Inr (case qualifying df K (group_labels labels) of
                  [] \<Rightarrow> best | c # _ \<Rightarrow> candidate_result df K c)"
    and "\<forall>c1\<in>set (group_labels labels). \<forall>c2\<in>set (group_labels labels).
           recall_of df K (snd c1) > 0.5 \<and> recall_of df K (snd c2) > 0.5 \<longrightarrow> c1 = c2"
proof -
  let ?cs = "group_labels labels"
  have part: "mset (concat (map snd ?cs)) = mset [0..<length df]"
    using group_labels_mset [of labels] len by simp
  show u: "\<forall>c1\<in>set ?cs. \<forall>c2\<in>set ?cs.
           recall_of df K (snd c1) > 0.5 \<and> recall_of df K (snd c2) > 0.5 \<longrightarrow> c1 = c2"
    using majority_unique [OF group_labels_distinct part K] by blast
  have "analyze_clusters df K ?cs best =
     Inr (foldl (\<lambda>b c. if recall_of df K (snd c) > 0.5 then candidate_result df K c else b) best ?cs)"
    by (rule analyze_clusters_foldl [OF group_labels_valid [OF len] K(2)])
  also have "foldl (\<lambda>b c. if recall_of df K (snd c) > 0.5 then candidate_result df K c else b) best ?cs
     = (case filter (\<lambda>c. recall_of df K (snd c) > 0.5) ?cs of
          [] \<Rightarrow> best | c # _ \<Rightarrow> candidate_result df K c)"
    by (rule foldl_unique [OF u])
  finally show "analyze_clusters df K ?cs best =
           Inr (case qualifying df K ?cs of [] \<Rightarrow> best | c # _ \<Rightarrow> candidate_result df K c)"
    by (simp only: qualifying_def)
qed

text \<open>
  C10. For the clusters that the grouping loop builds from a label list (one label per row of
  the frame) and a frame with exactly \<open>K > 0\<close> injected rows: the injected counts of the
  clusters add up to \<open>K\<close>, so at most one cluster has recall above one half; the candidate
  is therefore unique, and the scan of \<open>run_injection_test\<close>, which keeps the last
  qualifying cluster in iteration order, returns what selecting the qualifying cluster of
  highest recall returns.
\<close>

theorem injection_candidate_unique:
  assumes "clusters = group_labels labels" and "length df = length labels"
    and "K = length (filter is_injected df)" and "0 < K"
  shows "sum_list (map (\<lambda>c. injected_count df (snd c)) clusters) = K
       \<and> (\<forall>c1\<in>set clusters. \<forall>c2\<in>set clusters.
            recall_of df K (snd c1) > 0.5 \<and> recall_of df K (snd c2) > 0.5 \<longrightarrow> c1 = c2)
       \<and> length (qualifying df K clusters) \<le> 1
       \<and> analyze_clusters df K clusters initial_result = Inr (select_highest_recall df K clusters)"
proof -
  have part: "mset (concat (map snd clusters)) = mset [0..<length df]"
    using group_labels_mset [of labels] assms(1,2) by simp
  have total: "sum_list (map (\<lambda>c. injected_count df (snd c)) clusters) = K"
    using injected_count_partition [OF part] assms(3) by simp
  have u: "\<forall>c1\<in>set clusters. \<forall>c2\<in>set clusters.
            recall_of df K (snd c1) > 0.5 \<and> recall_of df K (snd c2) > 0.5 \<longrightarrow> c1 = c2"
    using scan_group_labels(2) [OF assms(2,3,4)] assms(1) by simp
  have d: "distinct clusters"
    using group_labels_distinct [of labels] assms(1) by (simp add: distinct_map)
  have short: "length (qualifying df K clusters) \<le> 1"
    unfolding qualifying_def by (rule unique_filter_short [OF d u])
  have scan: "analyze_clusters df K clusters initial_result =
           Inr (case qualifying df K clusters of
                  [] \<Rightarrow> initial_result | c # _ \<Rightarrow> candidate_result df K c)"
    using scan_group_labels(1) [OF assms(2,3,4)] assms(1) by simp
  have "(case qualifying df K clusters of
           [] \<Rightarrow> initial_result | c # _ \<Rightarrow> candidate_result df K c)
        = select_highest_recall df K clusters"
  proof (cases "qualifying df K clusters")
    case Nil
    then show ?thesis by (simp add: select_highest_recall_def)
  next
    case (Cons c cs)
    then have "cs = []" using short by simp
    then show ?thesis using Cons by (simp add: select_highest_recall_def)
  qed
  then show ?thesis using total u short scan by simp
qed

lemma group_labels_example: "group_labels [0, 0, 1, 1, 1] = [(0, [0, 1]), (1, [2, 3, 4])]"
  by (simp add: group_labels_def)

theorem injection_candidate_unique_witness:
  "sum_list (map (\<lambda>c. injected_count (df_final [''a'', ''b''] [''x'', ''y'', ''z'']) (snd c))
      (group_labels [0, 0, 1, 1, 1])) = 3
   \<and> length (qualifying (df_final [''a'', ''b''] [''x'', ''y'', ''z'']) 3
        (group_labels [0, 0, 1, 1, 1])) \<le> 1
   \<and> analyze_clusters (df_final [''a'', ''b''] [''x'', ''y'', ''z'']) 3
        (group_labels [0, 0, 1, 1, 1]) initial_result
       = Inr (select_highest_recall (df_final [''a'', ''b''] [''x'', ''y'', ''z'']) 3
               (group_labels [0, 0, 1, 1, 1]))"
proof -
  let ?df = "df_final [''a'', ''b''] [''x'', ''y'', ''z'']"
  have l: "length ?df = length [0, 0, 1, 1, 1 :: int]" by (simp add: df_final_def)
  have k: "(3 :: nat) = length (filter is_injected ?df)"
    by (simp add: df_final_def original_row_def injected_row_def)
  have p: "0 < (3 :: nat)" by simp
  from injection_candidate_unique [OF refl l k p] show ?thesis by blast
qed

lemma df_final_length: "length (df_final df_orig hidden) = length df_orig + length hidden"
  by (simp add: df_final_def)

lemma df_final_injected:
  "length (filter is_injected (df_final df_orig hidden)) = length hidden"
  by (simp add: df_final_def filter_map comp_def original_row_def injected_row_def)

text \<open>
  C2. \<open>run_injection_test\<close> on a corpus with \<open>K > 0\<close> injected messages, when the estimator
  returns one non-negative label per message: it returns a result; if some cluster has
  recall = (number of injected members)/K above one half, the result is such a cluster, no
  qualifying cluster has more injected members (hence none has a higher recall), the
  reported recall is (injected members)/K and the reported precision is
  (injected members)/(cluster size), and the verdict is not the failure; if no cluster has
  recall above one half, the verdict is the failure.
\<close>

theorem run_injection_test_reports:
  assumes fp: "fit_predict 1.5 (generate_embeddings (map full_text (df_final df_orig hidden))) = Inr labels"
    and len: "length labels = length df_orig + length hidden"
    and K: "hidden \<noteq> []"
    and nonneg: "\<forall>l\<in>set labels. 0 \<le> l"
  shows "\<exists>res. run_injection_test generate_embeddings fit_predict df_orig hidden = Inr res \<and>
     (if \<exists>c\<in>set (group_labels labels).
            real (injected_count (df_final df_orig hidden) (snd c)) / real (length hidden) > 0.5
      then \<exists>c\<in>set (group_labels labels).
             real (injected_count (df_final df_orig hidden) (snd c)) / real (length hidden) > 0.5
           \<and> (\<forall>c'\<in>set (group_labels labels).
                 real (injected_count (df_final df_orig hidden) (snd c')) / real (length hidden) > 0.5
                 \<longrightarrow> injected_count (df_final df_orig hidden) (snd c')
                       \<le> injected_count (df_final df_orig hidden) (snd c))
           \<and> best_cluster_id res = fst c
           \<and> best_recall res
               = real (injected_count (df_final df_orig hidden) (snd c)) / real (length hidden)
           \<and> best_precision res
               = real (injected_count (df_final df_orig hidden) (snd c)) / real (length (snd c))
           \<and> final_verdict res \<noteq> FAILURE
      else res = initial_result \<and> final_verdict res = FAILURE)"
proof -
  let ?df = "df_final df_orig hidden"
  let ?K = "length hidden"
  let ?cs = "group_labels labels"
  let ?res = "case qualifying ?df ?K ?cs of [] \<Rightarrow> initial_result | c # _ \<Rightarrow> candidate_result ?df ?K c"
  have dl: "length ?df = length labels" using len by (simp add: df_final_length)
  have Kdf: "?K = length (filter is_injected ?df)" by (simp add: df_final_injected)
  have Kpos: "0 < ?K" using K by simp
  have scan: "analyze_clusters ?df ?K ?cs initial_result = Inr ?res"
    by (rule scan_group_labels(1) [OF dl Kdf Kpos])
  have u: "\<forall>c1\<in>set ?cs. \<forall>c2\<in>set ?cs.
           recall_of ?df ?K (snd c1) > 0.5 \<and> recall_of ?df ?K (snd c2) > 0.5 \<longrightarrow> c1 = c2"
    by (rule scan_group_labels(2) [OF dl Kdf Kpos])
  have run: "run_injection_test generate_embeddings fit_predict df_orig hidden = Inr ?res"
    using fp scan by (simp add: run_injection_test_def perform_clustering_def Let_def)
  have q: "set (qualifying ?df ?K ?cs) = {c \<in> set ?cs. recall_of ?df ?K (snd c) > 0.5}"
    by (simp add: qualifying_def)
  show ?thesis
  proof (cases "qualifying ?df ?K ?cs")
    case Nil
    then have none: "\<not> (\<exists>c\<in>set ?cs. recall_of ?df ?K (snd c) > 0.5)"
      using q by auto
    have "?res = initial_result" using Nil by simp
    moreover have "final_verdict initial_result = FAILURE"
      by (simp add: final_verdict_def initial_result_def)
    ultimately show ?thesis using run none by (simp add: recall_of_def)
  next
    case (Cons c cs)
    then have c: "c \<in> set ?cs" "recall_of ?df ?K (snd c) > 0.5"
      using q by (metis (mono_tags, lifting) list.set_intros(1) mem_Collect_eq)+
    have res: "?res = candidate_result ?df ?K c" using Cons by simp
    have "fst c \<in> set labels" using c(1) group_labels_keys [of labels] by force
    then have "0 \<le> fst c" using nonneg by simp
    then have v: "final_verdict (candidate_result ?df ?K c) \<noteq> FAILURE"
      by (simp add: final_verdict_def candidate_result_def)
    have best: "\<forall>c'\<in>set ?cs. recall_of ?df ?K (snd c') > 0.5
                 \<longrightarrow> injected_count ?df (snd c') \<le> injected_count ?df (snd c)"
      using u c by blast
    have ex: "\<exists>c\<in>set ?cs. recall_of ?df ?K (snd c) > 0.5" using c by blast
    have "\<exists>c\<in>set ?cs. recall_of ?df ?K (snd c) > 0.5
           \<and> (\<forall>c'\<in>set ?cs. recall_of ?df ?K (snd c') > 0.5
                 \<longrightarrow> injected_count ?df (snd c') \<le> injected_count ?df (snd c))
           \<and> best_cluster_id ?res = fst c
           \<and> best_recall ?res = recall_of ?df ?K (snd c)
           \<and> best_precision ?res = precision_of ?df (snd c)
           \<and> final_verdict ?res \<noteq> FAILURE"
      using c best v res by (intro bexI [of _ c]) (simp_all add: candidate_result_def)
    then show ?thesis using run ex unfolding recall_of_def precision_of_def
      by (simp only: if_True) blast
  qed
qed


theorem run_injection_test_reports_witness:
  "\<exists>res. run_injection_test (\<lambda>texts. map (\<lambda>t. [real (length t)]) texts)
            (\<lambda>thr vectors. Inr [0, 0, 1, 1, 1]) [''a'', ''b''] [''x'', ''y'', ''z''] = Inr res
      \<and> best_cluster_id res = 1 \<and> best_recall res = 1 \<and> best_precision res = 1
      \<and> final_verdict res = SUCCESS_PERFECT"
proof -
  let ?ge = "\<lambda>texts :: string list. map (\<lambda>t. [real (length t)]) texts"
  let ?fp = "\<lambda>(thr :: real) (vectors :: real list list). (Inr [0, 0, 1, 1, 1] :: error + int list)"
  let ?df = "df_final [''a'', ''b''] [''x'', ''y'', ''z'']"
  let ?h = "[''x'', ''y'', ''z'']"
  let ?cs = "group_labels [0, 0, 1, 1, 1]"
  have fp: "?fp 1.5 (?ge (map full_text ?df)) = Inr [0, 0, 1, 1, 1]" by simp
  have len: "length [0, 0, 1, 1, 1 :: int] = length [''a'', ''b''] + length ?h"
    by simp
  have K: "?h \<noteq> []" by simp
  have nonneg: "\<forall>l\<in>set [0, 0, 1, 1, 1 :: int]. 0 \<le> l" by simp
  have ic: "injected_count ?df [0, 1] = 0" "injected_count ?df [2, 3, 4] = 3"
    "injected_count ?df [0, Suc 0] = 0"
    by (simp_all add: injected_count_def df_final_def original_row_def injected_row_def)
  have cond: "\<exists>c\<in>set ?cs. real (injected_count ?df (snd c)) / real (length ?h) > 0.5"
  proof (rule bexI [of _ "(1, [2, 3, 4])"])
    show "real (injected_count ?df (snd (1 :: int, [2, 3, 4]))) / real (length ?h) > 0.5"
      by (simp add: ic)
    show "(1, [2, 3, 4]) \<in> set ?cs" by (simp add: group_labels_example)
  qed
  from run_injection_test_reports [of ?fp ?ge, OF fp len K nonneg]
  obtain res where run: "run_injection_test ?ge ?fp [''a'', ''b''] ?h = Inr res"
    and body: "\<exists>c\<in>set ?cs.
             real (injected_count ?df (snd c)) / real (length ?h) > 0.5
           \<and> (\<forall>c'\<in>set ?cs.
                 real (injected_count ?df (snd c')) / real (length ?h) > 0.5
                 \<longrightarrow> injected_count ?df (snd c') \<le> injected_count ?df (snd c))
           \<and> best_cluster_id res = fst c
           \<and> best_recall res = real (injected_count ?df (snd c)) / real (length ?h)
           \<and> best_precision res = real (injected_count ?df (snd c)) / real (length (snd c))
           \<and> final_verdict res \<noteq> FAILURE"
    using cond by (simp only: if_True) blast
  from body obtain c where c: "c \<in> set ?cs"
    "real (injected_count ?df (snd c)) / real (length ?h) > 0.5"
    "best_cluster_id res = fst c"
    "best_recall res = real (injected_count ?df (snd c)) / real (length ?h)"
    "best_precision res = real (injected_count ?df (snd c)) / real (length (snd c))"
    by blast
  have "c = (0, [0, 1]) \<or> c = (1, [2, 3, 4])" using c(1) by (simp add: group_labels_example)
  moreover have "c \<noteq> (0, [0, 1])" using c(2) by (auto simp: ic)
  ultimately have ceq: "c = (1, [2, 3, 4])" by blast
  have r: "best_cluster_id res = 1" "best_recall res = 1" "best_precision res = 1"
    using c(3,4,5) by (simp_all add: ceq ic)
  then have "final_verdict res = SUCCESS_PERFECT" by (simp add: final_verdict_def)
  then show ?thesis using run r by blast
qed



section \<open>Properties of the representative sampler\<close>

lemma map_insort_key: "map f (insort_key (\<lambda>x. g (f x)) x xs) = insort_key g (f x) (map f xs)"
  by (induction xs) simp_all

lemma map_sort_key: "map f (sort_key (\<lambda>x. g (f x)) xs) = sort_key g (map f xs)"
  by (induction xs) (simp_all add: map_insort_key)

lemma summarize_cluster_id_size:
  assumes "summarize_cluster A E D n c = Inr s"
  shows "cluster_id s = fst c \<and> cluster_size s = length (snd c)"
  using assms
  by (cases c) (auto simp: summarize_cluster_def Let_def split: if_splits sum.splits)

lemma summarize_loop_Inr:
  "summarize_loop A E D n cs acc = Inr smrs \<longleftrightarrow>
     (\<exists>new. smrs = acc @ new \<and> list_all2 (\<lambda>c s. summarize_cluster A E D n c = Inr s) cs new)"
proof (induction cs arbitrary: acc)
  case Nil
  then show ?case by auto
next
  case (Cons c cs)
  show ?case
  proof (cases "summarize_cluster A E D n c")
    case (Inl e)
    then show ?thesis by (auto simp: list_all2_Cons1)
  next
    case (Inr s)
    then show ?thesis using Cons.IH [of "acc @ [s]"]
      by (auto simp: list_all2_Cons1)
  qed
qed

lemma get_representative_samples_InrD:
  assumes "get_representative_samples A cs E D n = Inr result"
  shows "\<exists>smrs. list_all2 (\<lambda>c s. summarize_cluster A E D n c = Inr s) cs smrs
        \<and> result = sort_by_size_reverse smrs"
proof -
  obtain smrs where l: "summarize_loop A E D n cs [] = Inr smrs"
    and r: "result = sort_by_size_reverse smrs"
    using assms by (auto simp: get_representative_samples_def split: sum.splits)
  from l have "list_all2 (\<lambda>c s. summarize_cluster A E D n c = Inr s) cs smrs"
    by (simp add: summarize_loop_Inr)
  then show ?thesis using r by blast
qed

lemma get_representative_samples_InrI:
  assumes "list_all2 (\<lambda>c s. summarize_cluster A E D n c = Inr s) cs smrs"
  shows "get_representative_samples A cs E D n = Inr (sort_by_size_reverse smrs)"
proof -
  have "summarize_loop A E D n cs [] = Inr smrs"
    using assms by (simp add: summarize_loop_Inr)
  then show ?thesis by (simp add: get_representative_samples_def)
qed

lemma summaries_id_size:
  assumes "list_all2 (\<lambda>c s. summarize_cluster A E D n c = Inr s) cs smrs"
  shows "map (\<lambda>s. (cluster_id s, cluster_size s)) smrs = map (\<lambda>c. (fst c, length (snd c))) cs"
  using assms by (induction rule: list_all2_induct) (simp_all add: summarize_cluster_id_size)

lemma sorted_ids_sizes:
  assumes "get_representative_samples A cs E D n = Inr result"
  shows "map (\<lambda>s. (cluster_id s, cluster_size s)) result
           = sort_key (\<lambda>p. - int (snd p)) (map (\<lambda>c. (fst c, length (snd c))) cs)"
proof -
  obtain smrs where smrs: "list_all2 (\<lambda>c s. summarize_cluster A E D n c = Inr s) cs smrs"
    and res: "result = sort_by_size_reverse smrs"
    using get_representative_samples_InrD [OF assms] by blast
  have "map (\<lambda>s. (cluster_id s, cluster_size s)) result
          = sort_key (\<lambda>p. - int (snd p)) (map (\<lambda>s. (cluster_id s, cluster_size s)) smrs)"
    unfolding res sort_by_size_reverse_def
    using map_sort_key [of "\<lambda>s. (cluster_id s, cluster_size s)" "\<lambda>p. - int (snd p)" smrs]
    by simp
  then show ?thesis using summaries_id_size [OF smrs] by simp
qed

lemma sorted_descending:
  "sorted_wrt (\<lambda>a b. snd b \<le> snd a) (sort_key (\<lambda>p. - int (snd p)) (ps :: (int \<times> nat) list))"
proof -
  have "sorted (map (\<lambda>p. - int (snd p)) (sort_key (\<lambda>p. - int (snd p)) ps))"
    by (rule sorted_sort_key)
  then show ?thesis by (simp add: sorted_map sorted_wrt_iff_nth_less)
qed

lemma stable_ties:
  "map fst (filter (\<lambda>p. snd p = k) (sort_key (\<lambda>p. - int (snd p)) (ps :: (int \<times> nat) list)))
     = map fst (filter (\<lambda>p. snd p = k) ps)"
proof -
  have "filter (\<lambda>p. - int (snd p) = - int k) (sort_key (\<lambda>p. - int (snd p)) ps)
          = filter (\<lambda>p. - int (snd p) = - int k) ps"
    by (rule sort_key_stable)
  then show ?thesis by simp
qed

lemma member_distances_Inr:
  "indices \<noteq> [] \<Longrightarrow>
     member_distances E indices =
       Inr (map (\<lambda>i. cosine_distance (E ! i) (np_mean (map (\<lambda>i. E ! i) indices))) indices)"
  by (simp add: member_distances_def cosine_distances_def Let_def comp_def)

lemma is_argsort_perm:
  assumes "is_argsort ds order"
  shows "distinct order" and "set order = {0..<length ds}" and "length order = length ds"
proof -
  have m: "mset order = mset [0..<length ds]" using assms by (simp add: is_argsort_def)
  show "distinct order" using m by (metis distinct_upt mset_eq_imp_distinct_iff)
  show "set order = {0..<length ds}" using mset_eq_setD [OF m] by simp
  show "length order = length ds" using mset_eq_length [OF m] by simp
qed

lemma stable_argsort_contract: "is_argsort ds (stable_argsort ds)"
  by (simp add: is_argsort_def stable_argsort_def)

lemma summarize_cluster_ok:
  assumes ne: "indices \<noteq> []"
    and valid: "\<forall>i\<in>set indices. i < length E \<and> i < length D"
    and n: "0 \<le> n"
    and ds: "ds = map (\<lambda>i. cosine_distance (E ! i) (np_mean (map (\<lambda>i. E ! i) indices))) indices"
    and as: "is_argsort ds (A ds)"
  shows "summarize_cluster A E D n (label, indices) =
           Inr \<lparr>cluster_id = label, cluster_size = length indices,
                percentage = py_round2 (real (length indices) / real (length D) * 100),
                representative_samples = map (\<lambda>p. D ! (indices ! p)) (take (nat n) (A ds))\<rparr>"
proof -
  have md: "member_distances E indices = Inr ds"
    using member_distances_Inr [OF ne] ds by simp
  have lds: "length ds = length indices" using ds by simp
  have sl: "py_slice_to (A ds) n = take (nat n) (A ds)" using n by (simp add: py_slice_to_def)
  have loc: "\<forall>p\<in>set (take (nat n) (A ds)). p < length indices"
  proof
    fix p assume "p \<in> set (take (nat n) (A ds))"
    then have "p \<in> set (A ds)" by (rule in_set_takeD)
    then show "p < length indices" using is_argsort_perm(2) [OF as] lds by simp
  qed
  have glob: "\<forall>g\<in>set (map (\<lambda>i. indices ! i) (take (nat n) (A ds))). g < length D"
    using loc valid by auto
  have "D \<noteq> []" using ne valid by (cases indices) auto
  then have dpos: "length D \<noteq> 0" by simp
  have c1: "\<not> (\<exists>i\<in>set indices. length E \<le> i)" using valid by (auto simp: not_le)
  have c2: "\<not> (\<exists>i\<in>set (take (nat n) (A ds)). length indices \<le> i)"
    using loc by (auto simp: not_le)
  have c3: "\<not> (\<exists>g\<in>set (map (\<lambda>i. indices ! i) (take (nat n) (A ds))). length D \<le> g)"
    using glob by (auto simp: not_le)
  show ?thesis
    unfolding summarize_cluster_def
    by (simp only: prod.case md sum.case sl Let_def c1 c2 c3 dpos if_False map_map comp_def)
qed

lemma take_argsort:
  assumes as: "is_argsort ds order"
  shows "length (take k order) = min k (length ds)"
    and "distinct (take k order)"
    and "set (take k order) \<subseteq> {0..<length ds}"
    and "sorted (map (\<lambda>p. ds ! p) (take k order))"
    and "\<forall>p\<in>set (take k order). \<forall>q\<in>{0..<length ds} - set (take k order). ds ! p \<le> ds ! q"
proof -
  note perm = is_argsort_perm [OF as]
  show "length (take k order) = min k (length ds)" using perm(3) by simp
  show "distinct (take k order)" using perm(1) by simp
  show "set (take k order) \<subseteq> {0..<length ds}" using perm(2) set_take_subset by fastforce
  have so: "sorted (map (\<lambda>p. ds ! p) (take k order @ drop k order))"
    using as by (simp add: is_argsort_def)
  then show "sorted (map (\<lambda>p. ds ! p) (take k order))"
    by (simp only: map_append sorted_append)
  show "\<forall>p\<in>set (take k order). \<forall>q\<in>{0..<length ds} - set (take k order). ds ! p \<le> ds ! q"
  proof (intro ballI)
    fix p q assume p: "p \<in> set (take k order)" and q: "q \<in> {0..<length ds} - set (take k order)"
    have "q \<in> set (take k order @ drop k order)" using q perm(2) by simp
    then have "q \<in> set (take k order) \<union> set (drop k order)" by (simp only: set_append)
    then have "q \<in> set (drop k order)" using q by blast
    moreover have "\<forall>x\<in>set (map (\<lambda>p. ds ! p) (take k order)).
                     \<forall>y\<in>set (map (\<lambda>p. ds ! p) (drop k order)). x \<le> y"
      using so by (simp only: map_append sorted_append) blast
    ultimately show "ds ! p \<le> ds ! q" using p by auto
  qed
qed

lemma result_ids_mset:
  assumes "get_representative_samples A cs E D n = Inr result"
  shows "mset (map cluster_id result) = mset (map fst cs)"
proof -
  let ?h = "\<lambda>c :: int \<times> nat list. (fst c, length (snd c))"
  let ?g = "\<lambda>p :: int \<times> nat. - int (snd p)"
  have "map cluster_id result = map fst (map (\<lambda>s. (cluster_id s, cluster_size s)) result)"
    by (simp add: comp_def)
  also have "\<dots> = map fst (sort_key ?g (map ?h cs))"
    by (simp only: sorted_ids_sizes [OF assms])
  finally have "mset (map cluster_id result) = mset (map fst (sort_key ?g (map ?h cs)))"
    by (rule arg_cong)
  also have "\<dots> = image_mset fst (mset (map ?h cs))"
    by (simp only: mset_map mset_sort)
  also have "\<dots> = mset (map fst (map ?h cs))"
    by (simp only: mset_map)
  also have "map fst (map ?h cs) = map fst cs" by (simp add: comp_def)
  finally show ?thesis .
qed

lemma samples_result:
  assumes valid: "\<forall>c\<in>set clusters. snd c \<noteq> [] \<and> (\<forall>i\<in>set (snd c). i < length E \<and> i < length D)"
    and n: "0 \<le> n"
    and as: "\<forall>ds. is_argsort ds (A ds)"
  shows "get_representative_samples A clusters E D n =
     Inr (sort_by_size_reverse (map (\<lambda>c.
       \<lparr>cluster_id = fst c, cluster_size = length (snd c),
        percentage = py_round2 (real (length (snd c)) / real (length D) * 100),
        representative_samples = map (\<lambda>p. D ! (snd c ! p))
          (take (nat n) (A (map (\<lambda>i. cosine_distance (E ! i) (np_mean (map (\<lambda>i. E ! i) (snd c))))
             (snd c))))\<rparr>) clusters))"
proof (rule get_representative_samples_InrI)
  let ?F = "\<lambda>c. \<lparr>cluster_id = fst c, cluster_size = length (snd c),
        percentage = py_round2 (real (length (snd c)) / real (length D) * 100),
        representative_samples = map (\<lambda>p. D ! (snd c ! p))
          (take (nat n) (A (map (\<lambda>i. cosine_distance (E ! i) (np_mean (map (\<lambda>i. E ! i) (snd c))))
             (snd c))))\<rparr>"
  have "\<forall>c\<in>set clusters. summarize_cluster A E D n c = Inr (?F c)"
  proof
    fix c assume c: "c \<in> set clusters"
    obtain label indices where ceq: "c = (label, indices)" by (cases c)
    have ne: "indices \<noteq> []" and v: "\<forall>i\<in>set indices. i < length E \<and> i < length D"
      using valid c ceq by auto
    show "summarize_cluster A E D n c = Inr (?F c)"
      using summarize_cluster_ok [OF ne v n refl, of A label] as by (simp add: ceq)
  qed
  then show "list_all2 (\<lambda>c s. summarize_cluster A E D n c = Inr s) clusters (map ?F clusters)"
    by (simp add: list_all2_map2 list_all2_same)
qed

text \<open>
  C4. For a cluster mapping whose member lists are non-empty and index rows of both the
  matrix and the frame, a non-negative \<open>samples_per_cluster\<close> and an \<open>argsort\<close> that meets
  its contract, \<open>get_representative_samples\<close> returns one summary per cluster, and for every
  cluster the \<open>representative_samples\<close> are the texts of the first
  \<open>min(samples_per_cluster, size)\<close> members in ascending order of their cosine distance to
  the centroid (the arithmetic mean of the member vectors): the chosen positions are
  distinct positions of the member list, their distances are ascending, and no member that
  was left out is closer than a chosen one. In particular the number of samples is
  \<open>min(samples_per_cluster, size)\<close>.
\<close>

theorem representative_samples_closest:
  assumes valid: "\<forall>c\<in>set clusters. snd c \<noteq> [] \<and>
                     (\<forall>i\<in>set (snd c). i < length embeddings \<and> i < length df)"
    and n: "0 \<le> samples_per_cluster"
    and as: "\<forall>ds. is_argsort ds (argsort ds)"
  shows "\<exists>result.
       get_representative_samples argsort clusters embeddings df samples_per_cluster = Inr result
     \<and> mset (map cluster_id result) = mset (map fst clusters)
     \<and> (\<forall>s\<in>set result.
           int (length (representative_samples s)) = min samples_per_cluster (int (cluster_size s)))
     \<and> (\<forall>c\<in>set clusters. \<exists>s\<in>set result. \<exists>ds closest.
           cluster_id s = fst c \<and> cluster_size s = length (snd c)
         \<and> ds = map (\<lambda>i. cosine_distance (embeddings ! i)
                          (np_mean (map (\<lambda>i. embeddings ! i) (snd c)))) (snd c)
         \<and> closest = take (nat samples_per_cluster) (argsort ds)
         \<and> representative_samples s = map (\<lambda>p. df ! (snd c ! p)) closest
         \<and> length closest = min (nat samples_per_cluster) (length (snd c))
         \<and> distinct closest \<and> set closest \<subseteq> {0..<length (snd c)}
         \<and> sorted (map (\<lambda>p. ds ! p) closest)
         \<and> (\<forall>p\<in>set closest. \<forall>q\<in>{0..<length (snd c)} - set closest. ds ! p \<le> ds ! q))"
proof -
  let ?ds = "\<lambda>c. map (\<lambda>i. cosine_distance (embeddings ! i)
                          (np_mean (map (\<lambda>i. embeddings ! i) (snd c)))) (snd c)"
  let ?cl = "\<lambda>c. take (nat samples_per_cluster) (argsort (?ds c))"
  let ?F = "\<lambda>c. \<lparr>cluster_id = fst c, cluster_size = length (snd c),
        percentage = py_round2 (real (length (snd c)) / real (length df) * 100),
        representative_samples = map (\<lambda>p. df ! (snd c ! p)) (?cl c)\<rparr>"
  let ?result = "sort_by_size_reverse (map ?F clusters)"
  have run: "get_representative_samples argsort clusters embeddings df samples_per_cluster
               = Inr ?result"
    by (rule samples_result [OF valid n as])
  have sr: "set ?result = ?F ` set clusters"
    by (simp add: sort_by_size_reverse_def)
  have ids: "mset (map cluster_id ?result) = mset (map fst clusters)"
    by (rule result_ids_mset [OF run])
  have lds: "\<And>c. length (?ds c) = length (snd c)" by simp
  have A: "\<And>c. is_argsort (?ds c) (argsort (?ds c))" using as by blast
  have len: "\<forall>s\<in>set ?result.
           int (length (representative_samples s)) = min samples_per_cluster (int (cluster_size s))"
  proof
    fix s assume "s \<in> set ?result"
    then obtain c where c: "c \<in> set clusters" and s: "s = ?F c" using sr by auto
    have "length (?cl c) = min (nat samples_per_cluster) (length (snd c))"
      using take_argsort(1) [OF A [of c], of "nat samples_per_cluster"] by simp
    then show "int (length (representative_samples s)) = min samples_per_cluster (int (cluster_size s))"
      using n s by simp
  qed
  have each: "\<forall>c\<in>set clusters. \<exists>s\<in>set ?result. \<exists>ds closest.
           cluster_id s = fst c \<and> cluster_size s = length (snd c)
         \<and> ds = ?ds c
         \<and> closest = take (nat samples_per_cluster) (argsort ds)
         \<and> representative_samples s = map (\<lambda>p. df ! (snd c ! p)) closest
         \<and> length closest = min (nat samples_per_cluster) (length (snd c))
         \<and> distinct closest \<and> set closest \<subseteq> {0..<length (snd c)}
         \<and> sorted (map (\<lambda>p. ds ! p) closest)
         \<and> (\<forall>p\<in>set closest. \<forall>q\<in>{0..<length (snd c)} - set closest. ds ! p \<le> ds ! q)"
  proof
    fix c assume c: "c \<in> set clusters"
    have in_res: "?F c \<in> set ?result" using c sr by blast
    note t = take_argsort [OF A [of c], of "nat samples_per_cluster"]
    have p1: "length (?cl c) = min (nat samples_per_cluster) (length (snd c))"
      using t(1) by simp
    have p2: "distinct (?cl c)" by (rule t(2))
    have p3: "set (?cl c) \<subseteq> {0..<length (snd c)}" using t(3) by simp
    have p4: "sorted (map (\<lambda>p. ?ds c ! p) (?cl c))" by (rule t(4))
    have p5: "\<forall>p\<in>set (?cl c). \<forall>q\<in>{0..<length (snd c)} - set (?cl c). ?ds c ! p \<le> ?ds c ! q"
      using t(5) by simp
    show "\<exists>s\<in>set ?result. \<exists>ds closest.
           cluster_id s = fst c \<and> cluster_size s = length (snd c)
         \<and> ds = ?ds c
         \<and> closest = take (nat samples_per_cluster) (argsort ds)
         \<and> representative_samples s = map (\<lambda>p. df ! (snd c ! p)) closest
         \<and> length closest = min (nat samples_per_cluster) (length (snd c))
         \<and> distinct closest \<and> set closest \<subseteq> {0..<length (snd c)}
         \<and> sorted (map (\<lambda>p. ds ! p) closest)
         \<and> (\<forall>p\<in>set closest. \<forall>q\<in>{0..<length (snd c)} - set closest. ds ! p \<le> ds ! q)"
      apply (rule bexI [OF _ in_res])
      apply (rule exI [of _ "?ds c"])
      apply (rule exI [of _ "?cl c"])
      using p1 p2 p3 p4 p5 apply simp
      done
  qed
  show ?thesis using run ids len each by blast
qed

theorem representative_samples_closest_witness:
  "\<exists>result. get_representative_samples stable_argsort [(0, [0, 1]), (1, [2])]
       [[1, 0], [1, 0], [0, 1]] [''a'', ''b'', ''c''] 1 = Inr result
     \<and> mset (map cluster_id result) = mset [0, 1]"
proof -
  let ?cs = "[(0 :: int, [0, 1 :: nat]), (1, [2])]"
  let ?E = "[[1, 0], [1, 0], [0, 1 :: real]]"
  let ?D = "[''a'', ''b'', ''c'']"
  have valid: "\<forall>c\<in>set ?cs. snd c \<noteq> [] \<and> (\<forall>i\<in>set (snd c). i < length ?E \<and> i < length ?D)"
    by simp
  have n: "0 \<le> (1 :: int)" by simp
  have as: "\<forall>ds. is_argsort ds (stable_argsort ds)" by (simp add: stable_argsort_contract)
  from representative_samples_closest [OF valid n as]
  obtain result where
    "get_representative_samples stable_argsort ?cs ?E ?D 1 = Inr result"
    "mset (map cluster_id result) = mset (map fst ?cs)"
    by blast
  then show ?thesis by auto
qed

text \<open>
  An evaluation: three members at distances 0, 2 and 0 from their centroid, two samples asked
  for; the two members at distance 0 are chosen.
\<close>

lemma closest_samples_example:
  "get_representative_samples stable_argsort [(0, [0, 1, 2])] [[2], [- 1], [2]]
     [''a'', ''b'', ''c''] 2
   = Inr [\<lparr>cluster_id = 0, cluster_size = 3, percentage = 100,
           representative_samples = [''a'', ''c'']\<rparr>]"
  by (simp add: get_representative_samples_def summarize_cluster_def member_distances_def
      cosine_distances_def cosine_distance_def normalize_def l2_norm_def dot_def np_mean_def
      py_slice_to_def stable_argsort_def sort_by_size_reverse_def py_round2_def)

text \<open>
  C3, as the code has it. Whenever \<open>get_representative_samples\<close> returns, the summaries are
  in descending order of size, and summaries of equal size keep the iteration order of the
  cluster mapping (they are not ordered by cluster id): the list of (id, size) pairs is the
  stable sort by descending size of the mapping's (key, member count) pairs.
\<close>

theorem summaries_sorted_by_size_stable:
  assumes "get_representative_samples argsort clusters embeddings df samples_per_cluster = Inr result"
  shows "sorted_wrt (\<lambda>a b. cluster_size b \<le> cluster_size a) result
       \<and> (\<forall>k. map cluster_id (filter (\<lambda>s. cluster_size s = k) result)
                 = map fst (filter (\<lambda>c. length (snd c) = k) clusters))
       \<and> map (\<lambda>s. (cluster_id s, cluster_size s)) result
           = sort_key (\<lambda>p. - int (snd p)) (map (\<lambda>c. (fst c, length (snd c))) clusters)"
proof -
  let ?h = "\<lambda>c :: int \<times> nat list. (fst c, length (snd c))"
  let ?g = "\<lambda>p :: int \<times> nat. - int (snd p)"
  let ?v = "\<lambda>s. (cluster_id s, cluster_size s)"
  have eq: "map ?v result = sort_key ?g (map ?h clusters)"
    by (rule sorted_ids_sizes [OF assms])
  have "sorted_wrt (\<lambda>a b. snd b \<le> snd a) (map ?v result)"
    unfolding eq by (rule sorted_descending)
  then have s: "sorted_wrt (\<lambda>a b. cluster_size b \<le> cluster_size a) result"
    by (simp add: sorted_wrt_map)
  have ties: "\<forall>k. map cluster_id (filter (\<lambda>s. cluster_size s = k) result)
                 = map fst (filter (\<lambda>c. length (snd c) = k) clusters)"
  proof
    fix k
    have "map cluster_id (filter (\<lambda>s. cluster_size s = k) result)
            = map fst (filter (\<lambda>p. snd p = k) (map ?v result))"
      by (simp add: filter_map comp_def)
    also have "\<dots> = map fst (filter (\<lambda>p. snd p = k) (map ?h clusters))"
      unfolding eq by (rule stable_ties)
    also have "\<dots> = map fst (filter (\<lambda>c. length (snd c) = k) clusters)"
      by (simp add: filter_map comp_def)
    finally show "map cluster_id (filter (\<lambda>s. cluster_size s = k) result)
                 = map fst (filter (\<lambda>c. length (snd c) = k) clusters)" .
  qed
  show ?thesis using s ties eq by blast
qed

lemma size_tie_example:
  "get_representative_samples stable_argsort [(1, [0]), (0, [1])] [[1, 0], [1, 0]] [''a'', ''b''] 5
   = Inr [\<lparr>cluster_id = 1, cluster_size = 1, percentage = 50, representative_samples = [''a'']\<rparr>,
          \<lparr>cluster_id = 0, cluster_size = 1, percentage = 50, representative_samples = [''b'']\<rparr>]"
  by (simp add: get_representative_samples_def summarize_cluster_def member_distances_def
      cosine_distances_def cosine_distance_def normalize_def l2_norm_def dot_def np_mean_def
      py_slice_to_def stable_argsort_def sort_by_size_reverse_def py_round2_def)

theorem summaries_sorted_by_size_stable_witness:
  "map (\<lambda>s. (cluster_id s, cluster_size s))
     [\<lparr>cluster_id = 1, cluster_size = 1, percentage = 50, representative_samples = [''a'']\<rparr>,
      \<lparr>cluster_id = 0, cluster_size = 1, percentage = 50, representative_samples = [''b'']\<rparr>]
   = sort_key (\<lambda>p. - int (snd p))
       (map (\<lambda>c. (fst c, length (snd c))) [(1 :: int, [0 :: nat]), (0, [1])])"
  using summaries_sorted_by_size_stable [OF size_tie_example] by (rule conjunct2 [THEN conjunct2])

text \<open>
  C3, the claim as stated, fails: for clusters of sizes 10, 25 and 25 whose mapping holds the
  size-25 cluster of id 2 before the one of id 1, the output order is id 2, id 1, id 0; the
  tie is not broken by ascending id.
\<close>

theorem size_ties_counterexample:
  "\<exists>result. get_representative_samples stable_argsort
       [(0, [0..<10]), (2, [10..<35]), (1, [35..<60])]
       (replicate 60 [1, 0]) (replicate 60 ''m'') 5 = Inr result
     \<and> map (\<lambda>s. (cluster_id s, cluster_size s)) result = [(2, 25), (1, 25), (0, 10)]"
proof -
  let ?cs = "[(0 :: int, [0..<10]), (2, [10..<35]), (1, [35..<60])]"
  let ?E = "replicate 60 [1, 0 :: real]"
  let ?D = "replicate 60 ''m''"
  have valid: "\<forall>c\<in>set ?cs. snd c \<noteq> [] \<and> (\<forall>i\<in>set (snd c). i < length ?E \<and> i < length ?D)"
    by simp
  have as: "\<forall>ds. is_argsort ds (stable_argsort ds)" by (simp add: stable_argsort_contract)
  obtain result where run: "get_representative_samples stable_argsort ?cs ?E ?D 5 = Inr result"
    using samples_result [OF valid _ as, of 5] by simp
  have "map (\<lambda>s. (cluster_id s, cluster_size s)) result
          = sort_key (\<lambda>p. - int (snd p)) (map (\<lambda>c. (fst c, length (snd c))) ?cs)"
    by (rule sorted_ids_sizes [OF run])
  also have "\<dots> = [(2, 25), (1, 25), (0, 10)]" by simp
  finally have "map (\<lambda>s. (cluster_id s, cluster_size s)) result = [(2, 25), (1, 25), (0, 10)]" .
  with run show ?thesis by (intro exI [of _ result] conjI)
qed

section \<open>Properties of the engine of the specification\<close>

lemma group_labels_length: "length (group_labels ls) = card (set ls)"
proof -
  have "length (group_labels ls) = length (map fst (group_labels ls))" by simp
  also have "\<dots> = card (set (map fst (group_labels ls)))"
    using group_labels_distinct [of ls] by (simp only: distinct_card)
  also have "\<dots> = card (set ls)" by (simp only: group_labels_keys)
  finally show ?thesis .
qed

lemma agglomerate_unfold:
  "agglomerate m t lab =
     (case next_merge m lab of
        None \<Rightarrow> lab
      | Some p \<Rightarrow> if t < merge_cost m lab p then lab else agglomerate m t (merge_groups p lab))"
  by (rule agglomerate.simps)

lemma agglomerate_card_le: "card (set (agglomerate m t lab)) \<le> card (set lab)"
proof (induction m t lab rule: agglomerate.induct)
  case (1 m t lab)
  show ?case
  proof (cases "next_merge m lab")
    case None
    then show ?thesis by (subst agglomerate_unfold) simp
  next
    case (Some p)
    show ?thesis
    proof (cases "t < merge_cost m lab p")
      case True
      then show ?thesis using Some by (subst agglomerate_unfold) simp
    next
      case False
      have "card (set (agglomerate m t (merge_groups p lab))) \<le> card (set (merge_groups p lab))"
        by (rule "1.IH" [OF Some False])
      also have "\<dots> \<le> card (set lab)" using merge_groups_card [OF Some] by simp
      finally show ?thesis using Some False by (subst agglomerate_unfold) simp
    qed
  qed
qed

lemma agglomerate_mono:
  "t1 \<le> t2 \<Longrightarrow> card (set (agglomerate m t2 lab)) \<le> card (set (agglomerate m t1 lab))"
proof (induction m t2 lab rule: agglomerate.induct)
  case (1 m t2 lab)
  show ?case
  proof (cases "next_merge m lab")
    case None
    then have "agglomerate m t2 lab = lab" "agglomerate m t1 lab = lab"
      by (subst agglomerate_unfold, simp)+
    then show ?thesis by simp
  next
    case (Some p)
    show ?thesis
    proof (cases "t2 < merge_cost m lab p")
      case True
      then have "t1 < merge_cost m lab p" using "1.prems" by simp
      then have "agglomerate m t2 lab = lab" "agglomerate m t1 lab = lab"
        using Some True by (subst agglomerate_unfold, simp)+
      then show ?thesis by simp
    next
      case False
      have e2: "agglomerate m t2 lab = agglomerate m t2 (merge_groups p lab)"
        using Some False by (subst agglomerate_unfold) simp
      show ?thesis
      proof (cases "t1 < merge_cost m lab p")
        case True
        then have e1: "agglomerate m t1 lab = lab"
          using Some by (subst agglomerate_unfold) simp
        have "card (set (agglomerate m t2 (merge_groups p lab))) \<le> card (set (merge_groups p lab))"
          by (rule agglomerate_card_le)
        also have "\<dots> \<le> card (set lab)" using merge_groups_card [OF Some] by simp
        finally show ?thesis using e1 e2 by simp
      next
        case f1: False
        have e1: "agglomerate m t1 lab = agglomerate m t1 (merge_groups p lab)"
          using Some f1 by (subst agglomerate_unfold) simp
        show ?thesis using "1.IH" [OF Some False "1.prems"] e1 e2 by simp
      qed
    qed
  qed
qed

lemma cluster_count:
  assumes "inj assign" and "validate_matrix vectors = Inr m"
  shows "perform_clustering (agglomerative_fit_predict assign) vectors t
           = Inr (group_labels (map assign (agglomerate m t [0..<length m])))"
    and "length (group_labels (map assign (agglomerate m t [0..<length m])))
           = card (set (agglomerate m t [0..<length m]))"
proof -
  show "perform_clustering (agglomerative_fit_predict assign) vectors t
           = Inr (group_labels (map assign (agglomerate m t [0..<length m])))"
    using assms(2) by (simp add: perform_clustering_def agglomerative_fit_predict_def)
  have "inj_on assign (set (agglomerate m t [0..<length m]))"
    using assms(1) by (rule inj_on_subset) simp
  then show "length (group_labels (map assign (agglomerate m t [0..<length m])))
           = card (set (agglomerate m t [0..<length m]))"
    by (simp add: group_labels_length card_image)
qed

text \<open>
  C8. On the engine of the specification, with distinct groups receiving distinct labels:
  for a matrix that passes validation and thresholds \<open>threshold1 < threshold2\<close>,
  \<open>perform_clustering\<close> returns a cluster mapping at both thresholds, and the mapping at
  \<open>threshold1\<close> has at least as many clusters as the one at \<open>threshold2\<close>.
\<close>

theorem threshold_monotone:
  assumes "inj assign" and "validate_matrix vectors = Inr m" and "threshold1 < threshold2"
  shows "\<exists>c1 c2.
       perform_clustering (agglomerative_fit_predict assign) vectors threshold1 = Inr c1
     \<and> perform_clustering (agglomerative_fit_predict assign) vectors threshold2 = Inr c2
     \<and> length c2 \<le> length c1"
proof -
  let ?c = "\<lambda>t. group_labels (map assign (agglomerate m t [0..<length m]))"
  have "length (?c threshold2) \<le> length (?c threshold1)"
    using agglomerate_mono [of threshold1 threshold2 m "[0..<length m]"] assms(3)
    by (simp only: cluster_count(2) [OF assms(1,2)])
  then show ?thesis using cluster_count(1) [OF assms(1,2)] by blast
qed

theorem threshold_monotone_witness:
  "\<exists>c1 c2.
       perform_clustering (agglomerative_fit_predict int)
         [[Finite 0], [Finite 1], [Finite 10], [Finite 11]] 1 = Inr c1
     \<and> perform_clustering (agglomerative_fit_predict int)
         [[Finite 0], [Finite 1], [Finite 10], [Finite 11]] 200 = Inr c2
     \<and> length c2 \<le> length c1"
proof -
  have i: "inj int" by simp
  have v: "validate_matrix [[Finite 0], [Finite 1], [Finite 10], [Finite 11]]
             = Inr [[0], [1], [10], [11]]"
    by (simp add: validate_matrix_def)
  have t: "(1 :: real) < 200" by simp
  from threshold_monotone [OF i v t] show ?thesis .
qed

lemma dict_append_relabel:
  assumes "inj_on f (insert l (set (map fst d)))"
  shows "dict_append (f l) i (map (\<lambda>(k, v). (f k, v)) d) = map (\<lambda>(k, v). (f k, v)) (dict_append l i d)"
  using assms
proof (induction d)
  case Nil
  then show ?case by simp
next
  case (Cons c d)
  obtain k v where c: "c = (k, v)" by (cases c)
  have inj: "inj_on f (insert l (set (map fst d)))"
    using Cons.prems by (rule inj_on_subset) auto
  have "f k = f l \<longleftrightarrow> k = l"
    using Cons.prems c by (auto simp: inj_on_def)
  then show ?case using Cons.IH [OF inj] c by simp
qed

lemma group_loop_relabel:
  assumes "inj_on f (set (map snd ps) \<union> set (map fst d))"
  shows "group_loop (map (\<lambda>(i, l). (i, f l)) ps) (map (\<lambda>(k, v). (f k, v)) d)
           = map (\<lambda>(k, v). (f k, v)) (group_loop ps d)"
  using assms
proof (induction ps d rule: group_loop.induct)
  case (1 clusters)
  then show ?case by simp
next
  case (2 idx label rest clusters)
  have i1: "inj_on f (insert label (set (map fst clusters)))"
    using "2.prems" by (rule inj_on_subset) auto
  have "set (map fst (dict_append label idx clusters)) \<subseteq> insert label (set (map fst clusters))"
    by (auto simp: dict_append_keys)
  then have i2: "inj_on f (set (map snd rest) \<union> set (map fst (dict_append label idx clusters)))"
    using "2.prems" by (elim inj_on_subset) auto
  show ?case
    using "2.IH" [OF i2] dict_append_relabel [OF i1, of idx] by simp
qed

lemma enumerate_map: "enumerate k (map f ls) = map (\<lambda>(i, l). (i, f l)) (enumerate k ls)"
  by (induction ls arbitrary: k) simp_all

lemma group_labels_relabel:
  assumes "inj_on f (set ls)"
  shows "group_labels (map f ls) = map (\<lambda>(k, v). (f k, v)) (group_labels ls)"
proof -
  have "inj_on f (set (map snd (enumerate 0 ls)) \<union> set (map fst ([] :: clusters)))"
    using assms by simp
  from group_loop_relabel [OF this] show ?thesis
    by (simp add: group_labels_def enumerate_map)
qed

lemma group_labels_members_relabel:
  assumes "inj_on f (set ls)"
  shows "map snd (group_labels (map f ls)) = map snd (group_labels ls)"
  by (simp add: group_labels_relabel [OF assms] comp_def case_prod_unfold)

lemma group_labels_members_assign:
  fixes assign1 assign2 :: "nat \<Rightarrow> int"
  assumes "inj assign1" and "inj assign2"
  shows "map snd (group_labels (map assign1 lab)) = map snd (group_labels (map assign2 lab))"
proof -
  let ?f = "\<lambda>k. assign2 (the_inv assign1 k)"
  have inv1: "\<And>x. the_inv assign1 (assign1 x) = x" using assms(1) by (rule the_inv_f_f)
  have "inj_on ?f (set (map assign1 lab))"
    using assms(2) inv1 by (auto simp: inj_on_def)
  then have "map snd (group_labels (map ?f (map assign1 lab)))
               = map snd (group_labels (map assign1 lab))"
    by (rule group_labels_members_relabel)
  moreover have "map ?f (map assign1 lab) = map assign2 lab" using inv1 by simp
  ultimately show ?thesis by (simp only:)
qed

lemma cheapest_first_min:
  "\<exists>pre post. best # ps = pre @ cheapest cost best ps # post
      \<and> (\<forall>q\<in>set pre. cost (cheapest cost best ps) < cost q)
      \<and> (\<forall>q\<in>set post. cost (cheapest cost best ps) \<le> cost q)"
proof (induction ps arbitrary: best)
  case Nil
  show ?case by (rule exI [of _ "[]"], rule exI [of _ "[]"]) simp
next
  case (Cons p ps)
  define b where "b = (if cost p < cost best then p else best)"
  define r where "r = cheapest cost b ps"
  obtain pre post where pp: "b # ps = pre @ r # post"
    and lo: "\<forall>q\<in>set pre. cost r < cost q" and hi: "\<forall>q\<in>set post. cost r \<le> cost q"
    using Cons.IH [of b] unfolding r_def by blast
  have r: "cheapest cost best (p # ps) = r" by (simp add: r_def b_def)
  have rb: "cost r \<le> cost b"
  proof (cases pre)
    case Nil
    then have "b = r" using pp by simp
    then show ?thesis by simp
  next
    case (Cons a pre')
    then have "b \<in> set pre" using pp by simp
    then have "cost r < cost b" using lo by blast
    then show ?thesis by simp
  qed
  show ?case
  proof (cases "cost p < cost best")
    case True
    then have b: "b = p" by (simp add: b_def)
    have "best # p # ps = (best # pre) @ r # post" using pp b by simp
    moreover have "\<forall>q\<in>set (best # pre). cost r < cost q"
      using lo rb True b by auto
    ultimately show ?thesis using hi unfolding r by blast
  next
    case False
    then have b: "b = best" by (simp add: b_def)
    show ?thesis
    proof (cases pre)
      case Nil
      then have rbest: "r = best" and post: "post = ps" using pp b by simp_all
      have "best # p # ps = [] @ r # (p # ps)" using rbest by simp
      moreover have "\<forall>q\<in>set (p # ps). cost r \<le> cost q"
        using hi post rbest False by auto
      moreover have "\<forall>q\<in>set ([] :: (nat \<times> nat) list). cost r < cost q" by simp
      ultimately show ?thesis unfolding r by blast
    next
      case (Cons a pre')
      then have a: "a = best" and rest: "ps = pre' @ r # post" using pp b by simp_all
      have rlt: "cost r < cost best" using lo Cons a by simp
      have "best # p # ps = (best # p # pre') @ r # post" using rest by simp
      moreover have "\<forall>q\<in>set (best # p # pre'). cost r < cost q"
      proof
        fix q assume "q \<in> set (best # p # pre')"
        then consider "q = best" | "q = p" | "q \<in> set pre'" by auto
        then show "cost r < cost q"
        proof cases
          case 1
          then show ?thesis using rlt by simp
        next
          case 2
          then show ?thesis using rlt False by simp
        next
          case 3
          then show ?thesis using lo Cons by simp
        qed
      qed
      ultimately show ?thesis using hi unfolding r by blast
    qed
  qed
qed


lemma product_lex_sorted:
  assumes "sorted_wrt (<) xs" and "sorted_wrt (<) ys"
  shows "sorted_wrt (\<lambda>p q. fst p < fst q \<or> (fst p = fst q \<and> snd p < snd q))
           (List.product xs (ys :: nat list))"
  using assms(1)
proof (induction xs)
  case Nil
  then show ?case by simp
next
  case (Cons x xs)
  have tl: "sorted_wrt (\<lambda>p q. fst p < fst q \<or> (fst p = fst q \<and> snd p < snd q)) (List.product xs ys)"
    using Cons by simp
  have "sorted_wrt (\<lambda>a b. fst (x, a) < fst (x, b) \<or> (fst (x, a) = fst (x, b) \<and> snd (x, a) < snd (x, b))) ys"
    using assms(2) by (rule sorted_wrt_mono_rel [rotated]) simp
  then have hd: "sorted_wrt (\<lambda>p q. fst p < fst q \<or> (fst p = fst q \<and> snd p < snd q)) (map (Pair x) ys)"
    by (simp only: sorted_wrt_map)
  have cross: "\<forall>p\<in>set (map (Pair x) ys). \<forall>q\<in>set (List.product xs ys).
                 fst p < fst q \<or> (fst p = fst q \<and> snd p < snd q)"
    using Cons.prems by auto
  show ?case using tl hd cross by (simp add: sorted_wrt_append)
qed

lemma candidate_pairs_sorted:
  "sorted_wrt (\<lambda>p q. fst p < fst q \<or> (fst p = fst q \<and> snd p < snd q)) (candidate_pairs lab)"
proof -
  have g: "sorted_wrt (<) (group_ids lab)"
    unfolding group_ids_def by (rule sorted_wrt_filter) simp
  show ?thesis unfolding candidate_pairs_def
    by (rule sorted_wrt_filter) (rule product_lex_sorted [OF g g])
qed

lemma next_merge_least:
  assumes "next_merge m lab = Some p" and "q \<in> set (candidate_pairs lab)"
  shows "merge_cost m lab p \<le> merge_cost m lab q
       \<and> (merge_cost m lab q = merge_cost m lab p
            \<longrightarrow> fst p < fst q \<or> (fst p = fst q \<and> snd p \<le> snd q))"
proof -
  obtain best ps where cp: "candidate_pairs lab = best # ps"
    and p: "p = cheapest (merge_cost m lab) best ps"
    using assms(1) by (auto simp: next_merge_def split: list.splits)
  obtain pre post where split: "best # ps = pre @ p # post"
    and lo: "\<forall>q\<in>set pre. merge_cost m lab p < merge_cost m lab q"
    and hi: "\<forall>q\<in>set post. merge_cost m lab p \<le> merge_cost m lab q"
    using cheapest_first_min [of best ps "merge_cost m lab"] p by blast
  have "sorted_wrt (\<lambda>p q. fst p < fst q \<or> (fst p = fst q \<and> snd p < snd q)) (pre @ p # post)"
    using candidate_pairs_sorted [of lab] cp split by simp
  then have after: "\<forall>q\<in>set post. fst p < fst q \<or> (fst p = fst q \<and> snd p < snd q)"
    by (simp add: sorted_wrt_append)
  have "q \<in> set pre \<or> q = p \<or> q \<in> set post"
    using assms(2) cp split by auto
  then show ?thesis
  proof (elim disjE)
    assume "q \<in> set pre"
    then show ?thesis using lo by fastforce
  next
    assume "q = p"
    then show ?thesis by simp
  next
    assume "q \<in> set post"
    then show ?thesis using hi after by fastforce
  qed
qed


lemma validate_matrix_single:
  assumes "\<forall>x\<in>set v. is_finite x"
  shows "validate_matrix [v] = Inr [map finite_value v]"
  using assms by (simp add: validate_matrix_def)

lemma agglomerate_single: "agglomerate m t [0] = [0]"
proof -
  have "next_merge m [0] = None"
    by (simp add: next_merge_def candidate_pairs_def group_ids_def)
  then show ?thesis by (subst agglomerate_unfold) simp
qed



text \<open>
  C7. On the engine of the specification: for a matrix of exactly one (finite) vector,
  \<open>perform_clustering\<close> returns exactly one cluster, whose member list is \<open>[0]\<close>, of size 1.
\<close>

theorem single_vector_one_cluster:
  assumes "\<forall>x\<in>set v. is_finite x"
  shows "\<exists>c. perform_clustering (agglomerative_fit_predict assign) [v] threshold = Inr [c]
           \<and> snd c = [0] \<and> length (snd c) = 1"
proof -
  have "agglomerative_fit_predict assign threshold [v] = Inr [assign 0]"
    using validate_matrix_single [OF assms]
    by (simp add: agglomerative_fit_predict_def agglomerate_single)
  then have "perform_clustering (agglomerative_fit_predict assign) [v] threshold
               = Inr [(assign 0, [0])]"
    by (simp add: perform_clustering_def group_labels_def)
  then show ?thesis by simp
qed

theorem single_vector_one_cluster_witness:
  "\<exists>c. perform_clustering (agglomerative_fit_predict int) [[Finite 1, Finite 0]] 1.5 = Inr [c]
           \<and> snd c = [0] \<and> length (snd c) = 1"
proof -
  have "\<forall>x\<in>set [Finite 1, Finite 0]. is_finite x" by simp
  from single_vector_one_cluster [OF this] show ?thesis .
qed

text \<open>
  C9. On the engine of the specification, which is a function of the matrix and the
  threshold: the partition that \<open>perform_clustering\<close> returns (the member lists, in order)
  does not depend on which distinct labels the groups receive, so two runs on the same input
  agree on the grouping whatever the label values; and the pair merged at each step has the
  least merge cost, a tie being broken in favour of the lexicographically lowest pair of
  original indices.
\<close>

theorem partition_independent_of_labels:
  assumes "inj assign1" and "inj assign2"
  shows "map_sum id (map snd)
           (perform_clustering (agglomerative_fit_predict assign1) vectors threshold)
         = map_sum id (map snd)
           (perform_clustering (agglomerative_fit_predict assign2) vectors threshold)
       \<and> (\<forall>m lab p. next_merge m lab = Some p \<longrightarrow>
            (\<forall>q\<in>set (candidate_pairs lab).
                merge_cost m lab p \<le> merge_cost m lab q
              \<and> (merge_cost m lab q = merge_cost m lab p
                   \<longrightarrow> fst p < fst q \<or> (fst p = fst q \<and> snd p \<le> snd q))))"
proof -
  have part: "map_sum id (map snd)
           (perform_clustering (agglomerative_fit_predict assign1) vectors threshold)
         = map_sum id (map snd)
           (perform_clustering (agglomerative_fit_predict assign2) vectors threshold)"
  proof (cases "validate_matrix vectors")
    case (Inl e)
    then show ?thesis by (simp add: perform_clustering_def agglomerative_fit_predict_def)
  next
    case (Inr m)
    let ?lab = "agglomerate m threshold [0..<length m]"
    have "map snd (group_labels (map assign1 ?lab)) = map snd (group_labels (map assign2 ?lab))"
      by (rule group_labels_members_assign [OF assms])
    then show ?thesis using Inr
      by (simp add: perform_clustering_def agglomerative_fit_predict_def)
  qed
  show ?thesis using part next_merge_least by blast
qed

theorem partition_independent_of_labels_witness:
  "map_sum id (map snd)
     (perform_clustering (agglomerative_fit_predict int)
        [[Finite 0], [Finite 1], [Finite 10], [Finite 11]] 1)
   = map_sum id (map snd)
     (perform_clustering (agglomerative_fit_predict (\<lambda>n. int n + 7))
        [[Finite 0], [Finite 1], [Finite 10], [Finite 11]] 1)"
proof -
  have i1: "inj int" by simp
  have i2: "inj (\<lambda>n. int n + 7)" by (simp add: inj_on_def)
  from partition_independent_of_labels [OF i1 i2] show ?thesis by blast
qed

text \<open>The engine on four points of the line: two close pairs, far apart.\<close>

lemmas engine_defs = next_merge_def candidate_pairs_def group_ids_def merge_cost_def members_def
  sq_dist_def np_mean_def merge_groups_def power2_eq_square

lemma engine_example:
  "agglomerate [[0], [1], [10], [11]] 1 [0, 1, 2, 3] = [0, 0, 2, 2]"
  apply (subst agglomerate_unfold, simp add: engine_defs)
  apply (subst agglomerate_unfold, simp add: engine_defs)
  apply (subst agglomerate_unfold, simp add: engine_defs)
  done

lemma engine_example_high:
  "agglomerate [[0], [1], [10], [11]] 200 [0, 1, 2, 3] = [0, 0, 0, 0]"
  apply (subst agglomerate_unfold, simp add: engine_defs)
  apply (subst agglomerate_unfold, simp add: engine_defs)
  apply (subst agglomerate_unfold, simp add: engine_defs)
  apply (subst agglomerate_unfold, simp add: engine_defs)
  done

lemma engine_example_clusters:
  "perform_clustering (agglomerative_fit_predict int)
     [[Finite 0], [Finite 1], [Finite 10], [Finite 11]] 1 = Inr [(0, [0, 1]), (2, [2, 3])]"
proof -
  have v: "validate_matrix [[Finite 0], [Finite 1], [Finite 10], [Finite 11]]
             = Inr [[0], [1], [10], [11]]"
    by (simp add: validate_matrix_def)
  have l: "[0..<length [[0], [1], [10], [11 :: real]]] = [0, 1, 2, 3]"
    by (simp add: upt_rec)
  have "agglomerative_fit_predict int 1 [[Finite 0], [Finite 1], [Finite 10], [Finite 11]]
          = Inr (map int [0, 0, 2, 2])"
    by (simp only: agglomerative_fit_predict_def v sum.case l engine_example)
  then show ?thesis by (simp add: perform_clustering_def group_labels_def)
qed

section \<open>The empty corpus\<close>





end
